theory Spec2Isabelle
  imports Main "HOL-Library.Word" "HOL-Library.Monad_Syntax"
begin

unbundle bit_operations_syntax

section \<open>zstr.h: memory, allocator and the string value\<close>

text \<open>
  A C object is the list of its bytes. An access outside the object it was issued to, or
  through a pointer that is not allocated, is undefined behaviour in C; every operation of
  the model returns \<open>None\<close> there. An allocation that fails is not an error of the
  model: the allocator returns \<open>NULL\<close> and the operation reports \<open>Z_ERR\<close>.

  Integers. The lengths and capacities of a string value are natural numbers: the sums
  and products its operations form (\<open>len + 1\<close>, \<open>cur_len + src_len\<close>,
  \<open>new_cap + 1\<close>, \<open>cap * 2\<close>) are the sizes of objects in memory and are taken
  without wrap-around. Where the code computes modulo the width of its type, the model
  does too: the casts to \<open>uint8_t\<close> are written \<open>mod 256\<close>, the new length of
  \<open>zstr_replace\<close> is computed modulo \<open>2 ^ 64\<close>, and the lengths and offsets of
  views and of the split sequence are 64-bit words.
\<close>

type_synonym byte = "8 word"
type_synonym size_t = "64 word"

definition Z_OK :: int where "Z_OK = 0"
definition Z_ERR :: int where "Z_ERR = - 1"
definition ZSTR_SSO_CAP :: nat where "ZSTR_SSO_CAP = 23"
definition ZSTR_UTF8_INVALID :: "32 word" where "ZSTR_UTF8_INVALID = 0xFFFD"

definition Z_GROWTH_FACTOR :: "nat \<Rightarrow> nat" where
  "Z_GROWTH_FACTOR cap = (if cap = 0 then 32 else cap * 2)"

text \<open>\<open>p[i]\<close> as an rvalue and \<open>p[i] = v\<close>, inside the object \<open>m\<close>.\<close>

definition peek :: "byte list \<Rightarrow> nat \<Rightarrow> byte option" where
  "peek m i = (if i < length m then Some (m ! i) else None)"

definition poke :: "byte list \<Rightarrow> nat \<Rightarrow> byte \<Rightarrow> byte list option" where
  "poke m i v = (if i < length m then Some (m[i := v]) else None)"

text \<open>\<open>memcpy(dst + off, src, n)\<close>: reads \<open>n\<close> bytes of \<open>src\<close>, writes them into \<open>dst\<close>.\<close>

definition memcpy :: "byte list \<Rightarrow> nat \<Rightarrow> byte list \<Rightarrow> nat \<Rightarrow> byte list option" where
  "memcpy dst off src n =
     (if n \<le> length src \<and> off + n \<le> length dst
      then Some (take off dst @ take n src @ drop (off + n) dst)
      else None)"

text \<open>\<open>memcmp(a, b, n) == 0\<close>: both objects must hold \<open>n\<close> bytes.\<close>

definition memcmp_eq :: "byte list \<Rightarrow> byte list \<Rightarrow> nat \<Rightarrow> bool option" where
  "memcmp_eq a b n =
     (if n \<le> length a \<and> n \<le> length b then Some (take n a = take n b) else None)"

text \<open>\<open>strlen\<close>: the number of bytes before the first NUL; undefined without one.\<close>

definition strlen :: "byte list \<Rightarrow> nat option" where
  "strlen m = (if 0 \<in> set m then Some (length (takeWhile (\<lambda>b. b \<noteq> 0) m)) else None)"

text \<open>A string literal or C string argument: its characters followed by the NUL.\<close>

definition c_str :: "byte list \<Rightarrow> byte list" where
  "c_str bs = bs @ [0]"

definition ascii :: "string \<Rightarrow> byte list" where
  "ascii cs = map (\<lambda>c. of_nat (of_char c)) cs"

subsection \<open>The allocator\<close>

text \<open>
  The heap maps the address of each live allocation to its bytes; \<open>brk\<close> is the next
  fresh address. Whether an allocation succeeds, and what the fresh memory holds, is not
  decided by the program: each allocating operation takes that as its \<open>alloc\<close> argument.
\<close>

record heap =
  blocks :: "nat \<rightharpoonup> byte list"
  brk :: nat

text \<open>A heap with no live allocation; address 0 is \<open>NULL\<close>.\<close>

definition empty_heap :: heap where
  "empty_heap = \<lparr>blocks = Map.empty, brk = 1\<rparr>"

datatype alloc = AllocFails | AllocGives "byte list"

definition fresh_bytes :: "nat \<Rightarrow> byte list \<Rightarrow> byte list" where
  "fresh_bytes sz junk = take sz (junk @ replicate sz 0)"

definition Z_STR_MALLOC :: "alloc \<Rightarrow> heap \<Rightarrow> nat \<Rightarrow> nat option \<times> heap" where
  "Z_STR_MALLOC a h sz =
     (case a of
        AllocFails \<Rightarrow> (None, h)
      | AllocGives junk \<Rightarrow>
          (Some (brk h),
           h\<lparr>blocks := (blocks h)(brk h \<mapsto> fresh_bytes sz junk), brk := Suc (brk h)\<rparr>))"

text \<open>
  \<open>realloc\<close>: on failure the old block stays as it is; on success the old block is gone
  and the new one, at a fresh address, starts with the old bytes (as many as fit).
\<close>

definition Z_STR_REALLOC :: "alloc \<Rightarrow> heap \<Rightarrow> nat \<Rightarrow> nat \<Rightarrow> (nat option \<times> heap) option" where
  "Z_STR_REALLOC a h p sz =
     (case blocks h p of
        None \<Rightarrow> None
      | Some old \<Rightarrow>
          (case a of
             AllocFails \<Rightarrow> Some (None, h)
           | AllocGives junk \<Rightarrow>
               Some (Some (brk h),
                     h\<lparr>blocks := ((blocks h)(p := None))(brk h \<mapsto> take sz (old @ fresh_bytes sz junk)),
                       brk := Suc (brk h)\<rparr>)))"

definition Z_STR_FREE :: "heap \<Rightarrow> nat \<Rightarrow> heap option" where
  "Z_STR_FREE h p =
     (case blocks h p of
        None \<Rightarrow> None
      | Some _ \<Rightarrow> Some (h\<lparr>blocks := (blocks h)(p := None)\<rparr>))"

subsection \<open>The string value\<close>

text \<open>
  \<open>zstr\<close> is a discriminator \<open>is_long\<close> and a union: \<open>Short buf len\<close> is the inline
  form (\<open>char buf[23]; uint8_t len\<close>), \<open>Long ptr len cap\<close> the heap form.
\<close>

datatype zstr = Short (sbuf: "byte list") (slen: nat) | Long (lptr: nat) (llen: nat) (lcap: nat)

fun zstr_is_long :: "zstr \<Rightarrow> bool" where
  "zstr_is_long (Short _ _) = False"
| "zstr_is_long (Long _ _ _) = True"

text \<open>\<open>zstr_data\<close> / \<open>zstr_cstr\<close>: the object the returned pointer points to.\<close>

fun zstr_data :: "heap \<Rightarrow> zstr \<Rightarrow> byte list option" where
  "zstr_data h (Short b _) = Some b"
| "zstr_data h (Long p _ _) = blocks h p"

text \<open>Storing through the pointer \<open>zstr_data\<close> returned.\<close>

fun set_data :: "heap \<Rightarrow> zstr \<Rightarrow> byte list \<Rightarrow> heap \<times> zstr" where
  "set_data h (Short _ l) b = (h, Short b l)"
| "set_data h (Long p l c) b = (h\<lparr>blocks := (blocks h)(p \<mapsto> b)\<rparr>, Long p l c)"

fun zstr_len :: "zstr \<Rightarrow> nat" where
  "zstr_len (Short _ l) = l"
| "zstr_len (Long _ l _) = l"

definition zstr_is_empty :: "zstr \<Rightarrow> bool" where
  "zstr_is_empty s = (zstr_len s = 0)"

text \<open>The C++ wrapper's \<open>capacity()\<close>: \<open>inner.is_long ? inner.l.cap : ZSTR_SSO_CAP\<close>.\<close>

fun capacity :: "zstr \<Rightarrow> nat" where
  "capacity (Short _ _) = ZSTR_SSO_CAP"
| "capacity (Long _ _ c) = c"

definition zstr_init :: zstr where
  "zstr_init = Short (replicate ZSTR_SSO_CAP 0) 0"

definition zstr_free :: "heap \<Rightarrow> zstr \<Rightarrow> (heap \<times> zstr) option" where
  "zstr_free h s =
     (case s of
        Long p _ _ \<Rightarrow> do { h' \<leftarrow> Z_STR_FREE h p; Some (h', zstr_init) }
      | Short _ _ \<Rightarrow> Some (h, zstr_init))"

definition zstr_clear :: "heap \<Rightarrow> zstr \<Rightarrow> (heap \<times> zstr) option" where
  "zstr_clear h s =
     (case s of
        Long p l c \<Rightarrow>
          do {
            blk \<leftarrow> blocks h p;
            blk' \<leftarrow> poke blk 0 0;
            Some (h\<lparr>blocks := (blocks h)(p \<mapsto> blk')\<rparr>, Long p 0 c)
          }
      | Short b l \<Rightarrow>
          do {
            b' \<leftarrow> poke b 0 0;
            Some (h, Short b' 0)
          })"

text \<open>
  \<open>zstr_reserve\<close>. The result is the return code, the heap and the value. When the value
  is inline, \<open>malloc\<close> gives a fresh block, the \<open>len\<close> inline bytes are copied and the
  terminator is written behind them.
\<close>

definition zstr_reserve :: "alloc \<Rightarrow> heap \<Rightarrow> zstr \<Rightarrow> nat \<Rightarrow> (int \<times> heap \<times> zstr) option" where
  "zstr_reserve a h s new_cap =
     (if new_cap < ZSTR_SSO_CAP then Some (Z_OK, h, s)
      else case s of
        Long p l c \<Rightarrow>
          if new_cap \<le> c then Some (Z_OK, h, s)
          else do {
            (r, h') \<leftarrow> Z_STR_REALLOC a h p (new_cap + 1);
            (case r of
               None \<Rightarrow> Some (Z_ERR, h', s)
             | Some new_ptr \<Rightarrow> Some (Z_OK, h', Long new_ptr l new_cap))
          }
      | Short b l \<Rightarrow>
          (case Z_STR_MALLOC a h (new_cap + 1) of
             (None, h') \<Rightarrow> Some (Z_ERR, h', s)
           | (Some new_ptr, h') \<Rightarrow>
               do {
                 blk \<leftarrow> blocks h' new_ptr;
                 blk1 \<leftarrow> memcpy blk 0 b l;
                 blk2 \<leftarrow> poke blk1 l 0;
                 Some (Z_OK, h'\<lparr>blocks := (blocks h')(new_ptr \<mapsto> blk2)\<rparr>, Long new_ptr l new_cap)
               }))"


text \<open>
  \<open>zstr_from_len(ptr, len)\<close>: \<open>src\<close> is the object \<open>ptr\<close> points to. The cast
  \<open>(uint8_t)len\<close> is written out.
\<close>

definition zstr_from_len :: "alloc \<Rightarrow> heap \<Rightarrow> byte list \<Rightarrow> nat \<Rightarrow> (heap \<times> zstr) option" where
  "zstr_from_len a h src len =
     (if len \<ge> ZSTR_SSO_CAP then
        do {
          (rc, h', s) \<leftarrow> zstr_reserve a h zstr_init len;
          if rc \<noteq> Z_OK then Some (h', s)
          else do {
            blk \<leftarrow> zstr_data h' s;
            blk1 \<leftarrow> memcpy blk 0 src len;
            blk2 \<leftarrow> poke blk1 len 0;
            (case s of
               Long p l c \<Rightarrow> Some (h'\<lparr>blocks := (blocks h')(p \<mapsto> blk2)\<rparr>, Long p len c)
             | Short _ _ \<Rightarrow> None)
          }
        }
      else
        do {
          b1 \<leftarrow> memcpy (sbuf zstr_init) 0 src len;
          b2 \<leftarrow> poke b1 len 0;
          Some (h, Short b2 (len mod 256))
        })"

definition zstr_from :: "alloc \<Rightarrow> heap \<Rightarrow> byte list \<Rightarrow> (heap \<times> zstr) option" where
  "zstr_from a h cstr = do { n \<leftarrow> strlen cstr; zstr_from_len a h cstr n }"

text \<open>
  The bytes of the union as they lie in memory while the value is long (\<open>ptr\<close>,
  \<open>len\<close>, \<open>cap\<close>, eight bytes each, least significant first). After
  \<open>is_long = 0\<close> the first 23 of them are what \<open>s.buf\<close> holds until it is written.
\<close>

definition le64 :: "nat \<Rightarrow> byte list" where
  "le64 n = map (\<lambda>i. of_nat (n div 256 ^ i)) [0..<8]"

definition long_image :: "nat \<Rightarrow> nat \<Rightarrow> nat \<Rightarrow> byte list" where
  "long_image p l c = take ZSTR_SSO_CAP (le64 p @ le64 l @ le64 c)"

text \<open>
  \<open>zstr_shrink_to_fit\<close>. \<open>temp\<close> is \<open>char temp[ZSTR_SSO_CAP]\<close>, not
  initialised in the source: the zeros the model puts there are overwritten before they
  are read. The test of the demotion branch is \<open>s->l.len <= ZSTR_SSO_CAP\<close>, as in
  the source; \<open>old_len\<close> is \<open>(uint8_t)s->l.len\<close>.
\<close>

definition zstr_shrink_to_fit :: "alloc \<Rightarrow> heap \<Rightarrow> zstr \<Rightarrow> (heap \<times> zstr) option" where
  "zstr_shrink_to_fit a h s =
     (case s of
        Short _ _ \<Rightarrow> Some (h, s)
      | Long p l c \<Rightarrow>
          if l \<le> ZSTR_SSO_CAP then
            do {
              blk \<leftarrow> blocks h p;
              temp \<leftarrow> memcpy (replicate ZSTR_SSO_CAP 0) 0 blk l;
              temp' \<leftarrow> poke temp l 0;
              h' \<leftarrow> Z_STR_FREE h p;
              b \<leftarrow> memcpy (long_image p l c) 0 temp' (l mod 256 + 1);
              Some (h', Short b (l mod 256))
            }
          else if l < c then
            do {
              (r, h') \<leftarrow> Z_STR_REALLOC a h p (l + 1);
              (case r of
                 None \<Rightarrow> Some (h', s)
               | Some new_ptr \<Rightarrow> Some (h', Long new_ptr l l))
            }
          else Some (h, s))"

text \<open>\<open>zstr_own(ptr, len, cap)\<close>: \<open>ptr\<close> is the address of a live allocation.\<close>

definition zstr_own :: "heap \<Rightarrow> nat \<Rightarrow> nat \<Rightarrow> nat \<Rightarrow> (heap \<times> zstr) option" where
  "zstr_own h ptr len cap =
     (if cap \<le> ZSTR_SSO_CAP then
        do {
          blk \<leftarrow> blocks h ptr;
          b1 \<leftarrow> memcpy (sbuf zstr_init) 0 blk len;
          b2 \<leftarrow> poke b1 len 0;
          h' \<leftarrow> Z_STR_FREE h ptr;
          Some (h', Short b2 (len mod 256))
        }
      else Some (h, Long ptr len cap))"

text \<open>\<open>zstr_take\<close>: the pointer handed out (\<open>None\<close> is \<open>NULL\<close>), the heap, the value.\<close>

definition zstr_take :: "alloc \<Rightarrow> heap \<Rightarrow> zstr \<Rightarrow> (nat option \<times> heap \<times> zstr) option" where
  "zstr_take a h s =
     (case s of
        Long p _ _ \<Rightarrow> Some (Some p, h, zstr_init)
      | Short b l \<Rightarrow>
          (case Z_STR_MALLOC a h (l + 1) of
             (None, h') \<Rightarrow> Some (None, h', zstr_init)
           | (Some q, h') \<Rightarrow>
               do {
                 blk \<leftarrow> blocks h' q;
                 blk1 \<leftarrow> memcpy blk 0 b l;
                 blk2 \<leftarrow> poke blk1 l 0;
                 Some (Some q, h'\<lparr>blocks := (blocks h')(q \<mapsto> blk2)\<rparr>, zstr_init)
               }))"

text \<open>\<open>s->l.len = n\<close> or \<open>s->s.len = (uint8_t)n\<close>, by the discriminator.\<close>

fun set_len :: "zstr \<Rightarrow> nat \<Rightarrow> zstr" where
  "set_len (Short b _) n = Short b (n mod 256)"
| "set_len (Long p _ c) n = Long p n c"

text \<open>The part of \<open>zstr_push_char\<close> after the growth test.\<close>

definition push_char_store :: "heap \<Rightarrow> zstr \<Rightarrow> nat \<Rightarrow> byte \<Rightarrow> (int \<times> heap \<times> zstr) option" where
  "push_char_store h s len c =
     do {
       p \<leftarrow> zstr_data h s;
       p1 \<leftarrow> poke p len c;
       p2 \<leftarrow> poke p1 (len + 1) 0;
       (case set_data h s p2 of (h', s') \<Rightarrow> Some (Z_OK, h', set_len s' (zstr_len s' + 1)))
     }"

definition zstr_push_char :: "alloc \<Rightarrow> heap \<Rightarrow> zstr \<Rightarrow> byte \<Rightarrow> (int \<times> heap \<times> zstr) option" where
  "zstr_push_char a h s c =
     (let len = zstr_len s in
      if len + 1 \<ge> capacity s then
        do {
          (rc, h', s') \<leftarrow> zstr_reserve a h s (Z_GROWTH_FACTOR (capacity s));
          if rc \<noteq> Z_OK then Some (Z_ERR, h', s') else push_char_store h' s' len c
        }
      else push_char_store h s len c)"

text \<open>\<open>zstr_pop_char\<close>: the byte returned, the heap, the value.\<close>

definition zstr_pop_char :: "heap \<Rightarrow> zstr \<Rightarrow> (byte \<times> heap \<times> zstr) option" where
  "zstr_pop_char h s =
     (let len = zstr_len s in
      if len = 0 then Some (0, h, s)
      else do {
        p \<leftarrow> zstr_data h s;
        c \<leftarrow> peek p (len - 1);
        p1 \<leftarrow> poke p (len - 1) 0;
        (case set_data h s p1 of (h', s') \<Rightarrow> Some (c, h', set_len s' (zstr_len s' - 1)))
      })"

text \<open>\<open>while (new_cap <= req_cap) new_cap = Z_GROWTH_FACTOR(new_cap);\<close>\<close>

function grow_cap :: "nat \<Rightarrow> nat \<Rightarrow> nat" where
  "grow_cap new_cap req_cap =
     (if new_cap \<le> req_cap then grow_cap (Z_GROWTH_FACTOR new_cap) req_cap else new_cap)"
  by pat_completeness auto
termination
  by (relation "measure (\<lambda>(new_cap, req_cap). Suc req_cap - new_cap)")
     (auto simp: Z_GROWTH_FACTOR_def)

declare grow_cap.simps [simp del]

text \<open>The part of \<open>zstr_cat_len\<close> after the growth test.\<close>

definition cat_len_store :: "heap \<Rightarrow> zstr \<Rightarrow> nat \<Rightarrow> byte list \<Rightarrow> nat \<Rightarrow> (int \<times> heap \<times> zstr) option" where
  "cat_len_store h s cur_len src src_len =
     do {
       dest \<leftarrow> zstr_data h s;
       d1 \<leftarrow> memcpy dest cur_len src src_len;
       d2 \<leftarrow> poke d1 (cur_len + src_len) 0;
       (case set_data h s d2 of
          (h', Long p l c) \<Rightarrow> Some (Z_OK, h', Long p (l + src_len) c)
        | (h', Short b l) \<Rightarrow> Some (Z_OK, h', Short b ((l + src_len mod 256) mod 256)))
     }"

definition zstr_cat_len :: "alloc \<Rightarrow> heap \<Rightarrow> zstr \<Rightarrow> byte list \<Rightarrow> nat \<Rightarrow> (int \<times> heap \<times> zstr) option" where
  "zstr_cat_len a h s src src_len =
     (let cur_len = zstr_len s; req_cap = cur_len + src_len in
      if req_cap \<ge> capacity s then
        do {
          (rc, h', s') \<leftarrow>
            zstr_reserve a h s
              (grow_cap (if capacity s = 0 then ZSTR_SSO_CAP else capacity s) req_cap);
          if rc \<noteq> Z_OK then Some (Z_ERR, h', s') else cat_len_store h' s' cur_len src src_len
        }
      else cat_len_store h s cur_len src src_len)"

text \<open>
  The invariant of the data model: the byte behind the content is NUL, the length does
  not count it, \<open>len \<le> cap\<close> when long (the block holds \<open>cap + 1\<close> bytes or more),
  \<open>len < ZSTR_SSO_CAP\<close> when inline.
\<close>

fun zstr_invariant :: "heap \<Rightarrow> zstr \<Rightarrow> bool" where
  "zstr_invariant h (Short b l) = (length b = ZSTR_SSO_CAP \<and> l < ZSTR_SSO_CAP \<and> b ! l = 0)"
| "zstr_invariant h (Long p l c) =
     (case blocks h p of
        None \<Rightarrow> False
      | Some blk \<Rightarrow> c < length blk \<and> l \<le> c \<and> blk ! l = 0)"


text \<open>What these values keep: the invariant, and a length of 23 or more once heap-backed.\<close>

definition grown_inv :: "heap \<Rightarrow> zstr \<Rightarrow> bool" where
  "grown_inv h s = (zstr_invariant h s \<and> (zstr_is_long s \<longrightarrow> ZSTR_SSO_CAP \<le> zstr_len s))"

text \<open>The content: the first \<open>len\<close> bytes behind the data pointer.\<close>

definition zstr_content :: "heap \<Rightarrow> zstr \<Rightarrow> byte list option" where
  "zstr_content h s = do { d \<leftarrow> zstr_data h s; Some (take (zstr_len s) d) }"

subsection \<open>Substring replacement\<close>

text \<open>
  \<open>strstr(m + off, needle)\<close>: both arguments are read as C strings, up to their first
  NUL. \<open>None\<close> is undefined behaviour (no NUL in the object), \<open>Some None\<close> is
  \<open>NULL\<close> (no occurrence), \<open>Some (Some i)\<close> the offset in \<open>m\<close> of the first one.
\<close>

fun find_sub :: "byte list \<Rightarrow> byte list \<Rightarrow> nat option" where
  "find_sub [] needle = (if needle = [] then Some 0 else None)"
| "find_sub (x # xs) needle =
     (if take (length needle) (x # xs) = needle then Some 0
      else map_option Suc (find_sub xs needle))"

definition c_strstr :: "byte list \<Rightarrow> nat \<Rightarrow> byte list \<Rightarrow> nat option option" where
  "c_strstr m off needle =
     do {
       n \<leftarrow> strlen needle;
       hl \<leftarrow> strlen (drop off m);
       Some (map_option (\<lambda>i. off + i) (find_sub (take hl (drop off m)) (take n needle)))
     }"

text \<open>
  \<open>while ((scan = strstr(scan, target)) != NULL) { count++; scan += target_len; }\<close>
  The loop does not advance when \<open>target_len\<close> is 0, so it is a partial function:
  \<open>None\<close> is undefined behaviour or no result.
\<close>

partial_function (option) count_matches :: "byte list \<Rightarrow> byte list \<Rightarrow> nat \<Rightarrow> nat \<Rightarrow> nat \<Rightarrow> nat option" where
  "count_matches m target target_len scan count =
     (case c_strstr m scan target of
        None \<Rightarrow> None
      | Some None \<Rightarrow> Some count
      | Some (Some p) \<Rightarrow> count_matches m target target_len (p + target_len) (Suc count))"

text \<open>
  The rewriting loop: each segment before a match, then the replacement. The result is
  \<open>curr_src\<close>, \<open>curr_dest\<close> and the destination object.
\<close>

partial_function (option) copy_matches ::
  "byte list \<Rightarrow> byte list \<Rightarrow> nat \<Rightarrow> byte list \<Rightarrow> nat \<Rightarrow> nat \<Rightarrow> nat \<Rightarrow> byte list
   \<Rightarrow> (nat \<times> nat \<times> byte list) option" where
  "copy_matches m target target_len replacement repl_len curr_src curr_dest dest =
     (case c_strstr m curr_src target of
        None \<Rightarrow> None
      | Some None \<Rightarrow> Some (curr_src, curr_dest, dest)
      | Some (Some p) \<Rightarrow>
          (case memcpy dest curr_dest (drop curr_src m) (p - curr_src) of
             None \<Rightarrow> None
           | Some d1 \<Rightarrow>
               (case memcpy d1 (curr_dest + (p - curr_src)) replacement repl_len of
                  None \<Rightarrow> None
                | Some d2 \<Rightarrow>
                    copy_matches m target target_len replacement repl_len
                      (p + target_len) (curr_dest + (p - curr_src) + repl_len) d2)))"

text \<open>\<open>strcpy(dest + off, m + from)\<close>: the characters and the NUL.\<close>

definition strcpy :: "byte list \<Rightarrow> nat \<Rightarrow> byte list \<Rightarrow> nat \<Rightarrow> byte list option" where
  "strcpy dest off m from =
     do { n \<leftarrow> strlen (drop from m); memcpy dest off (drop from m) (n + 1) }"

text \<open>The object \<open>dest\<close> after the bytes \<open>bs\<close> were stored at offset \<open>off\<close>.\<close>

definition overwrite :: "byte list \<Rightarrow> nat \<Rightarrow> byte list \<Rightarrow> byte list" where
  "overwrite dest off bs = take off dest @ bs @ drop (off + length bs) dest"

text \<open>
  \<open>zstr_replace\<close>. \<open>target\<close> is \<open>None\<close> for a \<open>NULL\<close> pointer. The new length is
  computed in \<open>size_t\<close>: \<open>repl_len - target_len\<close> wraps when the replacement is
  the shorter one, and the product and the sum wrap back.
\<close>

definition replace_new_len :: "nat \<Rightarrow> nat \<Rightarrow> nat \<Rightarrow> nat \<Rightarrow> nat" where
  "replace_new_len old_len count repl_len target_len =
     (old_len + count * ((repl_len + 2 ^ 64 - target_len) mod 2 ^ 64)) mod 2 ^ 64"

definition zstr_replace ::
  "alloc \<Rightarrow> heap \<Rightarrow> zstr \<Rightarrow> byte list option \<Rightarrow> byte list \<Rightarrow> (int \<times> heap \<times> zstr) option" where
  "zstr_replace a h s target replacement =
     (case target of
        None \<Rightarrow> Some (Z_ERR, h, s)
      | Some t \<Rightarrow>
          do {
            t0 \<leftarrow> peek t 0;
            if t0 = 0 then Some (Z_ERR, h, s)
            else do {
              src \<leftarrow> zstr_data h s;
              p \<leftarrow> c_strstr src 0 t;
              (case p of
                 None \<Rightarrow> Some (Z_OK, h, s)
               | Some _ \<Rightarrow>
                   do {
                     target_len \<leftarrow> strlen t;
                     repl_len \<leftarrow> strlen replacement;
                     count \<leftarrow> count_matches src t target_len 0 0;
                     (rc, h1, res) \<leftarrow>
                       zstr_reserve a h zstr_init
                         (replace_new_len (zstr_len s) count repl_len target_len);
                     if rc \<noteq> Z_OK then Some (Z_ERR, h1, s)
                     else do {
                       dest \<leftarrow> zstr_data h1 res;
                       (curr_src, curr_dest, dest1) \<leftarrow>
                         copy_matches src t target_len replacement repl_len 0 0 dest;
                       dest2 \<leftarrow> strcpy dest1 curr_dest src curr_src;
                       (case set_data h1 res dest2 of
                          (h2, res1) \<Rightarrow>
                            do {
                              (h3, s0) \<leftarrow> zstr_free h2 s;
                              Some (Z_OK, h3,
                                    set_len res1
                                      (replace_new_len (zstr_len s) count repl_len target_len))
                            })
                     }
                   })
            }
          })"

text \<open>
  What the specification says \<open>replace\<close> computes: every non-overlapping occurrence of
  the target, from the left, gives way to the replacement.
\<close>

function replace_all :: "byte list \<Rightarrow> byte list \<Rightarrow> byte list \<Rightarrow> byte list" where
  "replace_all xs t r =
     (if xs = [] \<or> t = [] then xs
      else if take (length t) xs = t then r @ replace_all (drop (length t) xs) t r
      else hd xs # replace_all (tl xs) t r)"
  by pat_completeness auto
termination
  by (relation "measure (\<lambda>(xs, t, r). length xs)") (auto simp: neq_Nil_conv)

declare replace_all.simps [simp del]

function occurrences :: "byte list \<Rightarrow> byte list \<Rightarrow> nat" where
  "occurrences xs t =
     (if xs = [] \<or> t = [] then 0
      else if take (length t) xs = t then Suc (occurrences (drop (length t) xs) t)
      else occurrences (tl xs) t)"
  by pat_completeness auto
termination
  by (relation "measure (\<lambda>(xs, t). length xs)") (auto simp: neq_Nil_conv)

declare occurrences.simps [simp del]

subsection \<open>Views\<close>

text \<open>
  A view is a pointer and a length. \<open>vdata\<close> is the object from the pointer on, so that
  \<open>data + n\<close> is \<open>drop n\<close>; \<open>vlen\<close> is a \<open>size_t\<close>.
\<close>

record zstr_view =
  vdata :: "byte list"
  vlen :: size_t

text \<open>The bytes a view denotes: undefined when it claims more than the object holds.\<close>

definition view_bytes :: "zstr_view \<Rightarrow> byte list option" where
  "view_bytes v = (if unat (vlen v) \<le> length (vdata v) then Some (take (unat (vlen v)) (vdata v)) else None)"

definition zstr_as_view :: "heap \<Rightarrow> zstr \<Rightarrow> zstr_view option" where
  "zstr_as_view h s = do { d \<leftarrow> zstr_data h s; Some \<lparr>vdata = d, vlen = of_nat (zstr_len s)\<rparr> }"

definition zstr_view_from :: "byte list \<Rightarrow> zstr_view option" where
  "zstr_view_from cstr = do { n \<leftarrow> strlen cstr; Some \<lparr>vdata = cstr, vlen = of_nat n\<rparr> }"

text \<open>\<open>zstr_sub\<close>: the comparisons and the sum are those of \<open>size_t\<close>.\<close>

definition zstr_sub :: "zstr_view \<Rightarrow> size_t \<Rightarrow> size_t \<Rightarrow> zstr_view" where
  "zstr_sub v start len =
     (if start \<ge> vlen v then \<lparr>vdata = c_str [], vlen = 0\<rparr>
      else \<lparr>vdata = drop (unat start) (vdata v),
             vlen = (if start + len > vlen v then vlen v - start else len)\<rparr>)"

subsection \<open>The split sequence\<close>

record zstr_split_iter =
  source :: zstr_view
  delim :: zstr_view
  current_pos :: size_t
  finished :: bool

definition zstr_split_init :: "zstr_view \<Rightarrow> byte list \<Rightarrow> zstr_split_iter option" where
  "zstr_split_init src delim_cstr =
     do {
       d \<leftarrow> zstr_view_from delim_cstr;
       Some \<lparr>source = src, delim = d, current_pos = 0, finished = False\<rparr>
     }"

text \<open>
  \<open>for (size_t i = 0; i <= remaining - it->delim.len; i++)\<close> with its \<open>memcmp\<close> and
  \<open>break\<close>; the result is \<open>found_at\<close>. The bound is a \<open>size_t\<close> difference, so the
  loop is a partial function.
\<close>

partial_function (option) split_scan :: "byte list \<Rightarrow> zstr_view \<Rightarrow> size_t \<Rightarrow> size_t \<Rightarrow> size_t option" where
  "split_scan start d remaining i =
     (if i \<le> remaining - vlen d then
        (case memcmp_eq (drop (unat i) start) (vdata d) (unat (vlen d)) of
           None \<Rightarrow> None
         | Some eq \<Rightarrow> if eq then Some i else split_scan start d remaining (i + 1))
      else Some remaining)"

text \<open>
  \<open>zstr_split_next(it, out_part)\<close>: the value returned, the iterator and \<open>*out_part\<close>
  afterwards.
\<close>

definition zstr_split_next ::
  "zstr_split_iter \<Rightarrow> zstr_view \<Rightarrow> (bool \<times> zstr_split_iter \<times> zstr_view) option" where
  "zstr_split_next it out_part =
     (if finished it then Some (False, it, out_part)
      else
        let start = drop (unat (current_pos it)) (vdata (source it));
            remaining = vlen (source it) - current_pos it
        in do {
          found_at \<leftarrow> split_scan start (delim it) remaining 0;
          if found_at = remaining then
            Some (True, it\<lparr>finished := True\<rparr>, \<lparr>vdata = start, vlen = remaining\<rparr>)
          else
            Some (True, it\<lparr>current_pos := current_pos it + found_at + vlen (delim it)\<rparr>,
                  \<lparr>vdata = start, vlen = found_at\<rparr>)
        })"

subsection \<open>UTF-8\<close>

text \<open>
  The continuation loop of \<open>zstr_next_rune\<close>: \<open>for (int i = 1; i < len; i++)\<close>. The
  result is the rune and the new value of \<open>*p\<close>, an offset in the object \<open>m\<close>.
\<close>

function next_rune_cont :: "byte list \<Rightarrow> nat \<Rightarrow> nat \<Rightarrow> nat \<Rightarrow> 32 word \<Rightarrow> (32 word \<times> nat) option" where
  "next_rune_cont m p i len rune =
     (if i < len then
        (case peek m (p + i) of
           None \<Rightarrow> None
         | Some next \<Rightarrow>
             if next AND 0xC0 \<noteq> 0x80 then Some (ZSTR_UTF8_INVALID, p + 1)
             else next_rune_cont m p (Suc i) len (push_bit 6 rune OR ucast (next AND 0x3F)))
      else Some (rune, p + len))"
  by pat_completeness auto
termination
  by (relation "measure (\<lambda>(m, p, i, len, rune). len - i)") auto

declare next_rune_cont.simps [simp del]

definition zstr_next_rune :: "byte list \<Rightarrow> nat \<Rightarrow> (32 word \<times> nat) option" where
  "zstr_next_rune m p =
     (case peek m p of
        None \<Rightarrow> None
      | Some c \<Rightarrow>
          if c = 0 then Some (0, p)
          else if c < 0x80 then Some (ucast c, p + 1)
          else if c AND 0xE0 = 0xC0 then next_rune_cont m p 1 2 (ucast (c AND 0x1F))
          else if c AND 0xF0 = 0xE0 then next_rune_cont m p 1 3 (ucast (c AND 0x0F))
          else if c AND 0xF8 = 0xF0 then next_rune_cont m p 1 4 (ucast (c AND 0x07))
          else Some (ZSTR_UTF8_INVALID, p + 1))"

text \<open>
  \<open>zstr_count_runes\<close>: \<open>while (*ptr) { zstr_next_rune(&ptr); count++; }\<close>. The loop
  ends because each decoding step moves \<open>ptr\<close> forward, which is what its termination
  proof uses.
\<close>

lemma next_rune_cont_advance:
  "next_rune_cont m p i len rune = Some (r, p') \<Longrightarrow> 0 < len \<Longrightarrow> p < p' \<and> p' \<le> p + len"
proof (induction m p i len rune rule: next_rune_cont.induct)
  case (1 m p i len rune)
  show ?case
  proof (cases "i < len")
    case False
    with "1.prems" show ?thesis by (simp add: next_rune_cont.simps)
  next
    case True
    with "1.prems" obtain nx where nx: "peek m (p + i) = Some nx"
      by (auto simp: next_rune_cont.simps split: option.splits)
    show ?thesis
    proof (cases "nx AND 0xC0 \<noteq> 0x80")
      case True
      with \<open>i < len\<close> nx "1.prems" show ?thesis by (simp add: next_rune_cont.simps)
    next
      case False
      with \<open>i < len\<close> nx "1.prems" "1.IH" [OF \<open>i < len\<close> nx] show ?thesis
        by (simp add: next_rune_cont.simps)
    qed
  qed
qed

lemma zstr_next_rune_advance:
  assumes "zstr_next_rune m p = Some (r, p')" and "peek m p = Some c" and "c \<noteq> 0"
  shows "p < p' \<and> p' \<le> p + 4"
  using assms
  by (auto simp: zstr_next_rune_def split: if_splits dest!: next_rune_cont_advance)

function count_runes_from :: "byte list \<Rightarrow> nat \<Rightarrow> nat \<Rightarrow> nat option" where
  "count_runes_from m ptr count =
     (case peek m ptr of
        None \<Rightarrow> None
      | Some c \<Rightarrow>
          if c = 0 then Some count
          else (case zstr_next_rune m ptr of
             None \<Rightarrow> None
           | Some (r, ptr') \<Rightarrow> count_runes_from m ptr' (Suc count)))"
  by pat_completeness auto
termination
proof (relation "measure (\<lambda>(m, ptr, count). length m - ptr)", goal_cases)
  case 1
  show ?case by simp
next
  case (2 m ptr count c x r ptr')
  then have "ptr < ptr'" using zstr_next_rune_advance by blast
  moreover from 2 have "ptr < length m" by (simp add: peek_def split: if_splits)
  ultimately show ?case by simp
qed

declare count_runes_from.simps [simp del]

definition zstr_count_runes :: "heap \<Rightarrow> zstr \<Rightarrow> nat option" where
  "zstr_count_runes h s = do { m \<leftarrow> zstr_data h s; count_runes_from m 0 0 }"

text \<open>
  The words of the specification about decoding: the encoded length a leading byte
  announces (0 when it announces none), the \<open>10xxxxxx\<close> pattern of a continuation
  byte, and a malformed position: the leading byte announces no length, or one of the
  continuation bytes it requires lacks the pattern. \<open>decode_steps m p q n\<close>: \<open>n\<close>
  decoding steps, none of them at a NUL, lead from offset \<open>p\<close> to offset \<open>q\<close>.
\<close>

definition lead_length :: "byte \<Rightarrow> nat" where
  "lead_length c =
     (if c < 0x80 then 1
      else if c AND 0xE0 = 0xC0 then 2
      else if c AND 0xF0 = 0xE0 then 3
      else if c AND 0xF8 = 0xF0 then 4
      else 0)"

definition is_continuation :: "byte \<Rightarrow> bool" where
  "is_continuation b = (b AND 0xC0 = 0x80)"

definition malformed_at :: "byte list \<Rightarrow> nat \<Rightarrow> bool" where
  "malformed_at m p =
     (case peek m p of
        None \<Rightarrow> False
      | Some c \<Rightarrow>
          lead_length c = 0
          \<or> list_ex (\<lambda>i. case peek m (p + i) of None \<Rightarrow> False | Some b \<Rightarrow> \<not> is_continuation b)
               [1..<lead_length c])"

inductive decode_steps :: "byte list \<Rightarrow> nat \<Rightarrow> nat \<Rightarrow> nat \<Rightarrow> bool" where
  decode_done: "decode_steps m p p 0"
| decode_step: "peek m p = Some c \<Longrightarrow> c \<noteq> 0 \<Longrightarrow> zstr_next_rune m p = Some (r, p')
      \<Longrightarrow> decode_steps m p' q n \<Longrightarrow> decode_steps m p q (Suc n)"

code_pred decode_steps .

text \<open>\<open>zstr_is_valid_utf8\<close>: the loop over \<open>*p\<close>, with \<open>p\<close> an offset in \<open>m\<close>.\<close>

function utf8_valid_from :: "byte list \<Rightarrow> nat \<Rightarrow> bool option" where
  "utf8_valid_from m p =
     (case peek m p of
        None \<Rightarrow> None
      | Some c \<Rightarrow>
          if c = 0 then Some True
          else if c < 0x80 then utf8_valid_from m (p + 1)
          else if c AND 0xE0 = 0xC0 then
            (if c < 0xC2 then Some False
             else case peek m (p + 1) of
               None \<Rightarrow> None
             | Some c1 \<Rightarrow>
                 if c1 AND 0xC0 \<noteq> 0x80 then Some False else utf8_valid_from m (p + 2))
          else if c AND 0xF0 = 0xE0 then
            (case peek m (p + 1) of
               None \<Rightarrow> None
             | Some b2 \<Rightarrow>
                 (case peek m (p + 2) of
                    None \<Rightarrow> None
                  | Some c2 \<Rightarrow>
                      if c2 AND 0xC0 \<noteq> 0x80 then Some False
                      else if c = 0xE0 \<and> b2 < 0xA0 then Some False
                      else if c = 0xED \<and> b2 \<ge> 0xA0 then Some False
                      else if b2 AND 0xC0 \<noteq> 0x80 then Some False
                      else utf8_valid_from m (p + 3)))
          else if c AND 0xF8 = 0xF0 then
            (if c > 0xF4 then Some False
             else case peek m (p + 1) of
               None \<Rightarrow> None
             | Some b2 \<Rightarrow>
                 if c = 0xF0 \<and> b2 < 0x90 then Some False
                 else if c = 0xF4 \<and> b2 \<ge> 0x90 then Some False
                 else if b2 AND 0xC0 \<noteq> 0x80 then Some False
                 else (case peek m (p + 2) of
                    None \<Rightarrow> None
                  | Some c2 \<Rightarrow>
                      if c2 AND 0xC0 \<noteq> 0x80 then Some False
                      else (case peek m (p + 3) of
                         None \<Rightarrow> None
                       | Some c3 \<Rightarrow>
                           if c3 AND 0xC0 \<noteq> 0x80 then Some False
                           else utf8_valid_from m (p + 4))))
          else Some False)"
  by pat_completeness auto
termination
  by (relation "measure (\<lambda>(m, p). length m - p)") (auto simp: peek_def split: if_splits)

declare utf8_valid_from.simps [simp del]

definition zstr_is_valid_utf8 :: "heap \<Rightarrow> zstr \<Rightarrow> bool option" where
  "zstr_is_valid_utf8 h s = do { m \<leftarrow> zstr_data h s; utf8_valid_from m 0 }"

section \<open>Properties\<close>

text \<open>Unfolding \<open>replicate\<close> at a numeral, for the evaluations below.\<close>

lemma replicate_numeral: "replicate (numeral k) x = x # replicate (pred_numeral k) x"
  by (simp add: numeral_eq_Suc)

subsection \<open>clear\<close>

text \<open>
  C10. For every string value (one that satisfies the invariant of the data model),
  \<open>zstr_clear\<close> returns, sets the length to 0 and writes the terminator at offset 0 of
  the data, and changes nothing else: the form (inline or heap), the heap pointer and
  the capacity are the same, every other byte of the data is the same, every other
  allocation is untouched, and nothing is freed or allocated (the heap has the same live
  addresses and the same next fresh address).
\<close>

theorem zstr_clear_frame:
  assumes "zstr_invariant h s"
  shows "\<exists>h' s' d0.
           zstr_clear h s = Some (h', s') \<and> zstr_data h s = Some d0
         \<and> zstr_len s' = 0
         \<and> zstr_data h' s' = Some (d0[0 := 0])
         \<and> zstr_is_long s' = zstr_is_long s
         \<and> capacity s' = capacity s
         \<and> (case s of
              Long p l c \<Rightarrow> s' = Long p 0 c \<and> (\<forall>q. q = p \<or> blocks h' q = blocks h q)
            | Short b l \<Rightarrow> h' = h)
         \<and> dom (blocks h') = dom (blocks h) \<and> brk h' = brk h"
proof (cases s)
  case (Short b l)
  with assms show ?thesis
    by (auto simp: zstr_clear_def poke_def ZSTR_SSO_CAP_def)
next
  case (Long p l c)
  with assms show ?thesis
    by (auto simp: zstr_clear_def poke_def split: option.splits)
qed

theorem zstr_clear_frame_witness:
  "\<exists>h' s' d0.
     zstr_clear \<lparr>blocks = [7 \<mapsto> [104, 105, 0, 33]], brk = 8\<rparr> (Long 7 2 3) = Some (h', s')
   \<and> zstr_data \<lparr>blocks = [7 \<mapsto> [104, 105, 0, 33]], brk = 8\<rparr> (Long 7 2 3) = Some d0
   \<and> zstr_len s' = 0
   \<and> zstr_data h' s' = Some [0, 105, 0, 33]
   \<and> s' = Long 7 0 3
   \<and> dom (blocks h') = {7} \<and> brk h' = 8"
  using zstr_clear_frame [of "\<lparr>blocks = [7 \<mapsto> [104, 105, 0, 33]], brk = 8\<rparr>" "Long 7 2 3"]
  by auto

subsection \<open>from_bytes and as_bytes\<close>

text \<open>
  C9. For every byte sequence \<open>b\<close>, with or without NUL bytes in it, whatever follows it
  in memory (\<open>rest\<close>): when the allocation succeeds, or none is needed,
  \<open>zstr_from_len\<close> on \<open>b\<close> gives a value of length \<open>length b\<close> whose view
  (\<open>zstr_as_view\<close>) denotes exactly the bytes \<open>b\<close>. (\<open>length b\<close> is a \<open>size_t\<close>.)
\<close>

theorem from_len_as_view_roundtrip:
  assumes len: "length b < 2 ^ 64"
      and al: "a = AllocGives junk \<or> length b < ZSTR_SSO_CAP"
  shows "\<exists>h' s v. zstr_from_len a h (b @ rest) (length b) = Some (h', s)
                 \<and> zstr_len s = length b
                 \<and> zstr_as_view h' s = Some v
                 \<and> view_bytes v = Some b"
proof (cases "length b < ZSTR_SSO_CAP")
  case True
  then have "length b < 256" by (simp add: ZSTR_SSO_CAP_def)
  with True len show ?thesis
    by (simp add: zstr_from_len_def zstr_init_def memcpy_def poke_def zstr_as_view_def
        view_bytes_def unat_of_nat)
next
  case False
  with al have a: "a = AllocGives junk" by auto
  from False len show ?thesis
    unfolding a
    by (simp add: zstr_from_len_def zstr_reserve_def zstr_init_def Z_STR_MALLOC_def
        fresh_bytes_def memcpy_def poke_def zstr_as_view_def view_bytes_def Z_OK_def
        unat_of_nat)
qed

theorem from_len_as_view_roundtrip_witness:
  "\<exists>h' s v.
     zstr_from_len (AllocGives [1, 2, 3]) empty_heap
       ([97, 0, 98, 0, 0, 99, 100, 101, 102, 103, 104, 105, 106, 107, 108, 109, 110, 111,
         112, 113, 114, 115, 0, 116, 117] @ [])
       (length [97, 0, 98, 0, 0, 99, 100, 101, 102, 103, 104, 105, 106, 107, 108, 109, 110,
                111, 112, 113, 114, 115, 0, 116, 117 :: byte]) = Some (h', s)
   \<and> zstr_len s =
       length [97, 0, 98, 0, 0, 99, 100, 101, 102, 103, 104, 105, 106, 107, 108, 109, 110,
               111, 112, 113, 114, 115, 0, 116, 117 :: byte]
   \<and> zstr_as_view h' s = Some v
   \<and> view_bytes v =
       Some [97, 0, 98, 0, 0, 99, 100, 101, 102, 103, 104, 105, 106, 107, 108, 109, 110, 111,
             112, 113, 114, 115, 0, 116, 117]"
  using from_len_as_view_roundtrip
    [of "[97, 0, 98, 0, 0, 99, 100, 101, 102, 103, 104, 105, 106, 107, 108, 109, 110, 111,
          112, 113, 114, 115, 0, 116, 117]" "AllocGives [1, 2, 3]" "[1, 2, 3]" empty_heap "[]"]
  by simp

subsection \<open>Views: sub\<close>

text \<open>
  Where \<open>start + len\<close> does not wrap around, \<open>zstr_sub\<close> clamps: the empty view when
  \<open>start\<close> is at or beyond the view's length, else the bytes from \<open>start\<close> on, with
  the smaller of \<open>len\<close> and what remains as the length.
\<close>

lemma zstr_sub_clamps:
  assumes "unat start + unat len < 2 ^ 64"
  shows "zstr_sub v start len =
           (if vlen v \<le> start then \<lparr>vdata = c_str [], vlen = 0\<rparr>
            else \<lparr>vdata = drop (unat start) (vdata v), vlen = min len (vlen v - start)\<rparr>)"
proof -
  have sum: "unat (start + len) = unat start + unat len"
    using assms by (simp add: unat_add_lem [THEN iffD1])
  show ?thesis
  proof (cases "vlen v \<le> start")
    case True
    then show ?thesis by (simp add: zstr_sub_def)
  next
    case False
    then have lt: "unat start < unat (vlen v)" by (simp add: word_less_nat_alt not_le)
    then have diff: "unat (vlen v - start) = unat (vlen v) - unat start"
      by (simp add: unat_sub word_le_nat_alt)
    have "(vlen v < start + len) = (vlen v - start < len)"
      using sum diff lt by (auto simp: word_less_nat_alt)
    with False show ?thesis
      by (auto simp: zstr_sub_def min_def not_le)
  qed
qed

text \<open>
  C5. The claim is that the length of \<open>sub(v, start, len)\<close> never exceeds
  \<open>v.len - start\<close>, for every \<open>len\<close>. The test of the code is
  \<open>start + len > v.len\<close>, a \<open>size_t\<close> sum: on the view of \<open>hello\<close> (5 bytes) with
  \<open>start = 1\<close> and \<open>len = SIZE_MAX\<close> the sum wraps to 0, the test is false and the
  view returned has length \<open>SIZE_MAX\<close>, more than the 4 bytes that remain and more than
  the object holds.
\<close>

theorem zstr_sub_length_wraps:
  "zstr_sub \<lparr>vdata = c_str (ascii ''hello''), vlen = 5\<rparr> 1 0xFFFFFFFFFFFFFFFF
     = \<lparr>vdata = c_str (ascii ''ello''), vlen = 0xFFFFFFFFFFFFFFFF\<rparr>
   \<and> vlen (zstr_sub \<lparr>vdata = c_str (ascii ''hello''), vlen = 5\<rparr> 1 0xFFFFFFFFFFFFFFFF) > 5 - 1
   \<and> view_bytes (zstr_sub \<lparr>vdata = c_str (ascii ''hello''), vlen = 5\<rparr> 1 0xFFFFFFFFFFFFFFFF) = None"
  by (simp add: zstr_sub_def c_str_def ascii_def view_bytes_def word_le_nat_alt word_less_nat_alt)

subsection \<open>The split sequence\<close>

text \<open>
  C6. Over the source \<open>a,,b\<close> with the delimiter \<open>,\<close> the calls of
  \<open>zstr_split_next\<close> return true three times, with the views \<open>a\<close>, the empty view
  and \<open>b\<close>, in that order, and then false; over \<open>abc\<close> they return true once, with
  \<open>abc\<close>, and then false. On every finished iterator \<open>zstr_split_next\<close> returns
  false and leaves the iterator (still finished) and \<open>*out_part\<close> as they were, so
  every further call does the same.
\<close>

theorem split_sequence:
  "(\<exists>src it0 it1 it2 it3 v1 v2 v3.
       zstr_view_from (c_str (ascii ''a,,b'')) = Some src
     \<and> zstr_split_init src (c_str (ascii '','')) = Some it0
     \<and> zstr_split_next it0 out = Some (True, it1, v1) \<and> view_bytes v1 = Some (ascii ''a'')
     \<and> zstr_split_next it1 v1 = Some (True, it2, v2) \<and> view_bytes v2 = Some []
     \<and> zstr_split_next it2 v2 = Some (True, it3, v3) \<and> view_bytes v3 = Some (ascii ''b'')
     \<and> zstr_split_next it3 v3 = Some (False, it3, v3))
   \<and> (\<exists>src it0 it1 v1.
       zstr_view_from (c_str (ascii ''abc'')) = Some src
     \<and> zstr_split_init src (c_str (ascii '','')) = Some it0
     \<and> zstr_split_next it0 out = Some (True, it1, v1) \<and> view_bytes v1 = Some (ascii ''abc'')
     \<and> zstr_split_next it1 v1 = Some (False, it1, v1))
   \<and> zstr_split_next (it\<lparr>finished := True\<rparr>) out' = Some (False, it\<lparr>finished := True\<rparr>, out')"
proof (intro conjI)
  show "\<exists>src it0 it1 it2 it3 v1 v2 v3.
       zstr_view_from (c_str (ascii ''a,,b'')) = Some src
     \<and> zstr_split_init src (c_str (ascii '','')) = Some it0
     \<and> zstr_split_next it0 out = Some (True, it1, v1) \<and> view_bytes v1 = Some (ascii ''a'')
     \<and> zstr_split_next it1 v1 = Some (True, it2, v2) \<and> view_bytes v2 = Some []
     \<and> zstr_split_next it2 v2 = Some (True, it3, v3) \<and> view_bytes v3 = Some (ascii ''b'')
     \<and> zstr_split_next it3 v3 = Some (False, it3, v3)"
    by (simp add: zstr_view_from_def strlen_def c_str_def ascii_def zstr_split_init_def
        zstr_split_next_def split_scan.simps memcmp_eq_def view_bytes_def Let_def)
  show "\<exists>src it0 it1 v1.
       zstr_view_from (c_str (ascii ''abc'')) = Some src
     \<and> zstr_split_init src (c_str (ascii '','')) = Some it0
     \<and> zstr_split_next it0 out = Some (True, it1, v1) \<and> view_bytes v1 = Some (ascii ''abc'')
     \<and> zstr_split_next it1 v1 = Some (False, it1, v1)"
    by (simp add: zstr_view_from_def strlen_def c_str_def ascii_def zstr_split_init_def
        zstr_split_next_def split_scan.simps memcmp_eq_def view_bytes_def Let_def)
  show "zstr_split_next (it\<lparr>finished := True\<rparr>) out' = Some (False, it\<lparr>finished := True\<rparr>, out')"
    by (simp add: zstr_split_next_def)
qed

subsection \<open>UTF-8 validation\<close>

text \<open>
  C8. \<open>zstr_is_valid_utf8\<close> accepts the strings \<open>hello\<close>, \<open>hello with an e-acute,\<close> with the
  two-byte \<open>C3 A9\<close>, the three three-byte sequences \<open>E6 97 A5 E6 9C AC E8 AA 9E\<close>
  and the four-byte sequence \<open>F0 9F 98 80\<close>; it rejects the lone continuation byte
  \<open>80\<close>, the overlong \<open>C0 AF\<close> and the surrogate \<open>ED A0 80\<close>. Each string is
  built by \<open>zstr_from\<close>, whatever the heap and the allocator.
\<close>

theorem is_valid_utf8_examples:
  "(do { (h', s) \<leftarrow> zstr_from a h (c_str (ascii ''hello'')); zstr_is_valid_utf8 h' s }) = Some True
 \<and> (do { (h', s) \<leftarrow> zstr_from a h (c_str [0x68, 0xC3, 0xA9, 0x6C, 0x6C, 0x6F]);
          zstr_is_valid_utf8 h' s }) = Some True
 \<and> (do { (h', s) \<leftarrow> zstr_from a h (c_str [0xE6, 0x97, 0xA5, 0xE6, 0x9C, 0xAC, 0xE8, 0xAA, 0x9E]);
          zstr_is_valid_utf8 h' s }) = Some True
 \<and> (do { (h', s) \<leftarrow> zstr_from a h (c_str [0xF0, 0x9F, 0x98, 0x80]);
          zstr_is_valid_utf8 h' s }) = Some True
 \<and> (do { (h', s) \<leftarrow> zstr_from a h (c_str [0x80]); zstr_is_valid_utf8 h' s }) = Some False
 \<and> (do { (h', s) \<leftarrow> zstr_from a h (c_str [0xC0, 0xAF]); zstr_is_valid_utf8 h' s }) = Some False
 \<and> (do { (h', s) \<leftarrow> zstr_from a h (c_str [0xED, 0xA0, 0x80]); zstr_is_valid_utf8 h' s })
      = Some False"
  by (simp add: zstr_from_def zstr_from_len_def strlen_def c_str_def ascii_def ZSTR_SSO_CAP_def
      zstr_init_def memcpy_def poke_def zstr_is_valid_utf8_def utf8_valid_from.simps peek_def)

subsection \<open>UTF-8 decoding and counting\<close>

lemma next_rune_cont_bad:
  assumes "peek m (p + j) = Some b" and "\<not> is_continuation b" and "i \<le> j" and "j < len"
  shows "next_rune_cont m p i len rune = Some (ZSTR_UTF8_INVALID, p + 1)"
  using assms
proof (induction m p i len rune rule: next_rune_cont.induct)
  case (1 m p i len rune)
  from "1.prems" have il: "i < len" by simp
  from "1.prems" have "p + i < length m" by (simp add: peek_def split: if_splits)
  then obtain nx where nx: "peek m (p + i) = Some nx" by (simp add: peek_def)
  show ?case
  proof (cases "nx AND 0xC0 \<noteq> 0x80")
    case True
    with il nx show ?thesis by (simp add: next_rune_cont.simps)
  next
    case False
    with nx "1.prems" have "i \<noteq> j" by (auto simp: is_continuation_def)
    with "1.prems" have "Suc i \<le> j" by simp
    with "1.IH" [OF il nx] False "1.prems" il nx show ?thesis
      by (simp add: next_rune_cont.simps)
  qed
qed

lemma next_rune_cont_before_nul:
  assumes "peek m k = Some 0" and "p + i \<le> k" and "0 < i" and "i \<le> len"
  shows "\<exists>r p'. next_rune_cont m p i len rune = Some (r, p') \<and> p < p' \<and> p' \<le> k"
  using assms
proof (induction m p i len rune rule: next_rune_cont.induct)
  case (1 m p i len rune)
  show ?case
  proof (cases "i < len")
    case False
    with "1.prems" show ?thesis by (simp add: next_rune_cont.simps)
  next
    case il: True
    from "1.prems" have "p + i < length m" by (simp add: peek_def split: if_splits)
    then obtain nx where nx: "peek m (p + i) = Some nx" by (simp add: peek_def)
    show ?thesis
    proof (cases "nx AND 0xC0 \<noteq> 0x80")
      case True
      with il nx "1.prems" show ?thesis by (simp add: next_rune_cont.simps)
    next
      case False
      with nx "1.prems" have "p + i \<noteq> k" by auto
      with "1.prems" have "p + Suc i \<le> k" by simp
      with "1.IH" [OF il nx] False "1.prems" il nx show ?thesis
        by (simp add: next_rune_cont.simps)
    qed
  qed
qed

lemma zstr_next_rune_malformed:
  assumes "peek m p = Some c" and "c \<noteq> 0" and "malformed_at m p"
  shows "zstr_next_rune m p = Some (ZSTR_UTF8_INVALID, p + 1)"
proof (cases "lead_length c = 0")
  case True
  with assms show ?thesis
    by (simp add: zstr_next_rune_def lead_length_def split: if_splits)
next
  case False
  with assms obtain j b where j: "j \<in> set [1..<lead_length c]" "peek m (p + j) = Some b" "\<not> is_continuation b"
    by (auto simp: malformed_at_def list_ex_iff split: option.splits)
  then have j1: "1 \<le> j" "j < lead_length c" by auto
  then have c80: "\<not> c < 0x80" by (auto simp: lead_length_def split: if_splits)
  from j1 j(2,3) have bad: "\<And>rune. next_rune_cont m p 1 (lead_length c) rune = Some (ZSTR_UTF8_INVALID, p + 1)"
    by (intro next_rune_cont_bad [where j = j and b = b]) auto
  from False c80 assms(1,2) bad show ?thesis
    by (auto simp: zstr_next_rune_def lead_length_def split: if_splits)
qed

lemma zstr_next_rune_before_nul:
  assumes "peek m p = Some c" and "c \<noteq> 0" and "peek m k = Some 0" and "p \<le> k"
  shows "\<exists>r p'. zstr_next_rune m p = Some (r, p') \<and> p < p' \<and> p' \<le> k \<and> p' \<le> p + 4"
proof -
  from assms have pk: "p + 1 \<le> k" by (cases "p = k") auto
  have cont: "\<And>len rune. 1 \<le> len \<Longrightarrow> \<exists>r p'. next_rune_cont m p 1 len rune = Some (r, p') \<and> p < p' \<and> p' \<le> k"
    using next_rune_cont_before_nul [OF assms(3), of p 1] pk by simp
  have "\<exists>r p'. zstr_next_rune m p = Some (r, p') \<and> p < p' \<and> p' \<le> k"
    using assms(1,2) pk cont [of 2] cont [of 3] cont [of 4]
    by (auto simp: zstr_next_rune_def)
  then obtain r p' where *: "zstr_next_rune m p = Some (r, p')" "p < p'" "p' \<le> k" by blast
  with zstr_next_rune_advance [OF *(1) assms(1,2)] show ?thesis by simp
qed

lemma count_runes_from_steps:
  assumes "peek m k = Some 0" and "p \<le> k"
  shows "\<exists>n q. count_runes_from m p count = Some (count + n) \<and> decode_steps m p q n
               \<and> peek m q = Some 0 \<and> q \<le> k"
  using assms(2)
proof (induction "k - p" arbitrary: p count rule: less_induct)
  case less
  from less.prems assms(1) have "p < length m" by (simp add: peek_def split: if_splits)
  then obtain c where c: "peek m p = Some c" by (simp add: peek_def)
  show ?case
  proof (cases "c = 0")
    case True
    with c less.prems have "count_runes_from m p count = Some (count + 0)"
      by (simp add: count_runes_from.simps)
    with c True less.prems show ?thesis
      using decode_done by blast
  next
    case False
    from zstr_next_rune_before_nul [OF c False assms(1) less.prems]
    obtain r p' where st: "zstr_next_rune m p = Some (r, p')" "p < p'" "p' \<le> k" by blast
    then have "k - p' < k - p" by simp
    from less.hyps [OF this st(3), of "Suc count"]
    obtain n q where rec: "count_runes_from m p' (Suc count) = Some (Suc count + n)"
      "decode_steps m p' q n" "peek m q = Some 0" "q \<le> k" by blast
    from c False st(1) rec(1) have "count_runes_from m p count = Some (count + Suc n)"
      by (simp add: count_runes_from.simps)
    moreover from c False st(1) rec(2) have "decode_steps m p q (Suc n)"
      by (rule decode_step)
    ultimately show ?thesis using rec(3,4) by blast
  qed
qed

text \<open>
  Every value that satisfies the invariant is NUL-terminated: \<open>zstr_count_runes\<close>
  returns on it, and what it returns is the number of decoding steps from the start of
  the data to a NUL.
\<close>

lemma zstr_count_runes_steps:
  assumes "zstr_invariant h s" and "zstr_data h s = Some m"
  shows "\<exists>n q. zstr_count_runes h s = Some n \<and> decode_steps m 0 q n
               \<and> peek m q = Some 0 \<and> q \<le> zstr_len s"
proof -
  from assms have "peek m (zstr_len s) = Some 0"
    by (cases s) (auto simp: peek_def ZSTR_SSO_CAP_def split: option.splits)
  from count_runes_from_steps [OF this, of 0 0] assms(2) show ?thesis
    by (auto simp: zstr_count_runes_def)
qed

text \<open>
  C7. In a NUL-terminated object \<open>m\<close> (a NUL at offset \<open>k\<close>, the position \<open>p\<close> not
  behind it): at a position whose leading byte is not NUL, a malformed leading byte or
  a required continuation byte without the \<open>10xxxxxx\<close> pattern makes
  \<open>zstr_next_rune\<close> return \<open>0xFFFD\<close> and advance by exactly one byte; in every case
  \<open>zstr_next_rune\<close> returns and advances by at least one byte, never beyond the NUL;
  the counting loop returns, and its result is the number of decoding steps that lead
  from \<open>p\<close> to a NUL, one per step whether the step decoded a rune or recovered from a
  malformed one; and on every string value whose data is \<open>m\<close>, \<open>zstr_count_runes\<close>
  returns the number of decoding steps that lead from the start of the data to a NUL
  (at or before the end of the content).
\<close>

theorem decode_progress_and_count:
  assumes "peek m k = Some 0" and "p \<le> k"
  shows "(\<forall>c. peek m p = Some c \<and> c \<noteq> 0 \<and> malformed_at m p
            \<longrightarrow> zstr_next_rune m p = Some (ZSTR_UTF8_INVALID, p + 1))
       \<and> (\<forall>c. peek m p = Some c \<and> c \<noteq> 0
            \<longrightarrow> (\<exists>r p'. zstr_next_rune m p = Some (r, p') \<and> p < p' \<and> p' \<le> k))
       \<and> (\<exists>n q. count_runes_from m p count = Some (count + n) \<and> decode_steps m p q n
               \<and> peek m q = Some 0 \<and> q \<le> k)
       \<and> (\<forall>h s. zstr_invariant h s \<and> zstr_data h s = Some m
            \<longrightarrow> (\<exists>n q. zstr_count_runes h s = Some n \<and> decode_steps m 0 q n
                      \<and> peek m q = Some 0 \<and> q \<le> zstr_len s))"
proof (intro conjI allI impI)
  fix c
  assume "peek m p = Some c \<and> c \<noteq> 0 \<and> malformed_at m p"
  then show "zstr_next_rune m p = Some (ZSTR_UTF8_INVALID, p + 1)"
    using zstr_next_rune_malformed by blast
next
  fix c
  assume "peek m p = Some c \<and> c \<noteq> 0"
  with zstr_next_rune_before_nul [of m p c k] assms
  show "\<exists>r p'. zstr_next_rune m p = Some (r, p') \<and> p < p' \<and> p' \<le> k" by blast
next
  from count_runes_from_steps [OF assms]
  show "\<exists>n q. count_runes_from m p count = Some (count + n) \<and> decode_steps m p q n
               \<and> peek m q = Some 0 \<and> q \<le> k" .
next
  fix h s
  assume "zstr_invariant h s \<and> zstr_data h s = Some m"
  then show "\<exists>n q. zstr_count_runes h s = Some n \<and> decode_steps m 0 q n
               \<and> peek m q = Some 0 \<and> q \<le> zstr_len s"
    using zstr_count_runes_steps by blast
qed

theorem decode_progress_and_count_witness:
  "zstr_from AllocFails empty_heap (c_str [0x80, 0xC3, 0x41, 0xE6, 0x97, 0xA5])
     = Some (empty_heap,
             Short [0x80, 0xC3, 0x41, 0xE6, 0x97, 0xA5, 0, 0, 0, 0, 0, 0, 0, 0, 0, 0, 0, 0, 0, 0,
                    0, 0, 0] 6)
 \<and> zstr_next_rune [0x80, 0xC3, 0x41, 0xE6, 0x97, 0xA5, 0, 0, 0, 0, 0, 0, 0, 0, 0, 0, 0, 0, 0, 0,
                    0, 0, 0] 0 = Some (ZSTR_UTF8_INVALID, 1)
 \<and> (\<exists>r p'. zstr_next_rune [0x80, 0xC3, 0x41, 0xE6, 0x97, 0xA5, 0, 0, 0, 0, 0, 0, 0, 0, 0, 0, 0,
                              0, 0, 0, 0, 0, 0] 0 = Some (r, p')
            \<and> 0 < p' \<and> p' \<le> 6)
 \<and> (\<exists>q. count_runes_from [0x80, 0xC3, 0x41, 0xE6, 0x97, 0xA5, 0, 0, 0, 0, 0, 0, 0, 0, 0, 0, 0,
                             0, 0, 0, 0, 0, 0] 0 0 = Some 4
        \<and> decode_steps [0x80, 0xC3, 0x41, 0xE6, 0x97, 0xA5, 0, 0, 0, 0, 0, 0, 0, 0, 0, 0, 0, 0, 0,
                         0, 0, 0, 0] 0 q 4
        \<and> peek [0x80, 0xC3, 0x41, 0xE6, 0x97, 0xA5, 0, 0, 0, 0, 0, 0, 0, 0, 0, 0, 0, 0, 0, 0, 0,
                 0, 0] q = Some 0 \<and> q \<le> 6)
 \<and> (\<exists>q. zstr_count_runes empty_heap
          (Short [0x80, 0xC3, 0x41, 0xE6, 0x97, 0xA5, 0, 0, 0, 0, 0, 0, 0, 0, 0, 0, 0, 0, 0, 0,
                  0, 0, 0] 6) = Some 4
        \<and> decode_steps [0x80, 0xC3, 0x41, 0xE6, 0x97, 0xA5, 0, 0, 0, 0, 0, 0, 0, 0, 0, 0, 0, 0, 0,
                         0, 0, 0, 0] 0 q 4
        \<and> peek [0x80, 0xC3, 0x41, 0xE6, 0x97, 0xA5, 0, 0, 0, 0, 0, 0, 0, 0, 0, 0, 0, 0, 0, 0, 0,
                 0, 0] q = Some 0 \<and> q \<le> 6)"
proof -
  let ?m = "[0x80, 0xC3, 0x41, 0xE6, 0x97, 0xA5, 0, 0, 0, 0, 0, 0, 0, 0, 0, 0, 0, 0, 0, 0,
             0, 0, 0 :: byte]"
  have mk: "zstr_from AllocFails empty_heap (c_str [0x80, 0xC3, 0x41, 0xE6, 0x97, 0xA5])
              = Some (empty_heap, Short ?m 6)"
    by (simp add: zstr_from_def zstr_from_len_def strlen_def c_str_def ZSTR_SSO_CAP_def
        zstr_init_def memcpy_def poke_def replicate_numeral)
  have nul: "peek ?m 6 = Some 0" by (simp add: peek_def)
  have lead: "peek ?m 0 = Some 0x80 \<and> (0x80 :: byte) \<noteq> 0" by (simp add: peek_def)
  have bad: "malformed_at ?m 0" by (simp add: malformed_at_def peek_def lead_length_def)
  have inv: "zstr_invariant empty_heap (Short ?m 6) \<and> zstr_data empty_heap (Short ?m 6) = Some ?m"
    by (simp add: ZSTR_SSO_CAP_def)
  have cnt: "count_runes_from ?m 0 0 = Some 4"
    by (simp add: count_runes_from.simps zstr_next_rune_def next_rune_cont.simps peek_def)
  have zcnt: "zstr_count_runes empty_heap (Short ?m 6) = Some 4"
    using cnt by (simp add: zstr_count_runes_def)
  note th = decode_progress_and_count [OF nul, of 0 0]
  from th have t1: "peek ?m 0 = Some 0x80 \<and> (0x80 :: byte) \<noteq> 0 \<and> malformed_at ?m 0
      \<longrightarrow> zstr_next_rune ?m 0 = Some (ZSTR_UTF8_INVALID, 0 + 1)" by blast
  with lead bad have c1: "zstr_next_rune ?m 0 = Some (ZSTR_UTF8_INVALID, 1)" by simp
  from th have t2: "peek ?m 0 = Some 0x80 \<and> (0x80 :: byte) \<noteq> 0
      \<longrightarrow> (\<exists>r p'. zstr_next_rune ?m 0 = Some (r, p') \<and> 0 < p' \<and> p' \<le> 6)" by blast
  with lead have c2: "\<exists>r p'. zstr_next_rune ?m 0 = Some (r, p') \<and> 0 < p' \<and> p' \<le> 6" by blast
  from th have "\<exists>n q. count_runes_from ?m 0 0 = Some (0 + n) \<and> decode_steps ?m 0 q n
      \<and> peek ?m q = Some 0 \<and> q \<le> 6" by blast
  then obtain n q where t3: "count_runes_from ?m 0 0 = Some (0 + n)" "decode_steps ?m 0 q n"
      "peek ?m q = Some 0" "q \<le> 6" by blast
  from t3(1) cnt have "n = 4" by simp
  with t3 cnt have c3: "\<exists>q. count_runes_from ?m 0 0 = Some 4 \<and> decode_steps ?m 0 q 4
      \<and> peek ?m q = Some 0 \<and> q \<le> 6" by blast
  from th have "zstr_invariant empty_heap (Short ?m 6) \<and> zstr_data empty_heap (Short ?m 6) = Some ?m
      \<longrightarrow> (\<exists>n q. zstr_count_runes empty_heap (Short ?m 6) = Some n \<and> decode_steps ?m 0 q n
                \<and> peek ?m q = Some 0 \<and> q \<le> zstr_len (Short ?m 6))" by blast
  with inv obtain n' q' where t4: "zstr_count_runes empty_heap (Short ?m 6) = Some n'"
      "decode_steps ?m 0 q' n'" "peek ?m q' = Some 0" "q' \<le> zstr_len (Short ?m 6)" by blast
  from t4(1) zcnt have "n' = 4" by simp
  with t4 zcnt have c4: "\<exists>q. zstr_count_runes empty_heap (Short ?m 6) = Some 4
      \<and> decode_steps ?m 0 q 4 \<and> peek ?m q = Some 0 \<and> q \<le> 6" by auto
  from mk c1 c2 c3 c4 show ?thesis by blast
qed

subsection \<open>shrink_to_fit\<close>

text \<open>
  Away from length 23, \<open>zstr_shrink_to_fit\<close> does what its comment says. A long value
  shorter than \<open>ZSTR_SSO_CAP\<close> becomes inline, with the same length and content, and
  its block is freed. A long value longer than \<open>ZSTR_SSO_CAP\<close> keeps everything when
  \<open>realloc\<close> fails or when \<open>len = cap\<close>; else its block becomes one of exactly
  \<open>len + 1\<close> bytes, with \<open>cap = len\<close> and the same content.
\<close>

lemma shrink_demotes:
  assumes inv: "zstr_invariant h (Long p l c)" and l: "l < ZSTR_SSO_CAP"
  shows "\<exists>h' b. zstr_shrink_to_fit a h (Long p l c) = Some (h', Short b l)
             \<and> zstr_invariant h' (Short b l)
             \<and> zstr_content h' (Short b l) = zstr_content h (Long p l c)
             \<and> blocks h' = (blocks h)(p := None) \<and> brk h' = brk h"
proof -
  from inv obtain blk where blk: "blocks h p = Some blk" "c < length blk" "l \<le> c" "blk ! l = 0"
    by (auto split: option.splits)
  from l have l256: "l mod 256 = l" by (simp add: ZSTR_SSO_CAP_def)
  have len_img: "length (long_image p l c) = ZSTR_SSO_CAP"
    by (simp add: long_image_def le64_def ZSTR_SSO_CAP_def)
  from blk l show ?thesis
    by (auto simp: zstr_shrink_to_fit_def memcpy_def poke_def Z_STR_FREE_def l256 len_img
        zstr_content_def nth_append min_def ZSTR_SSO_CAP_def)
qed

lemma shrink_reallocs:
  assumes inv: "zstr_invariant h (Long p l c)" and l: "ZSTR_SSO_CAP < l"
  shows "zstr_shrink_to_fit AllocFails h (Long p l c) = Some (h, Long p l c)"
    and "l = c \<Longrightarrow> zstr_shrink_to_fit a h (Long p l c) = Some (h, Long p l c)"
    and "l < c \<Longrightarrow> \<exists>h' blk'. zstr_shrink_to_fit (AllocGives junk) h (Long p l c) = Some (h', Long (brk h) l l)
             \<and> blocks h' (brk h) = Some blk' \<and> length blk' = l + 1
             \<and> zstr_invariant h' (Long (brk h) l l)
             \<and> zstr_content h' (Long (brk h) l l) = zstr_content h (Long p l c)"
proof -
  from inv obtain blk where blk: "blocks h p = Some blk" "c < length blk" "l \<le> c" "blk ! l = 0"
    by (auto split: option.splits)
  from blk l show "zstr_shrink_to_fit AllocFails h (Long p l c) = Some (h, Long p l c)"
    by (simp add: zstr_shrink_to_fit_def Z_STR_REALLOC_def)
  from blk l show "l = c \<Longrightarrow> zstr_shrink_to_fit a h (Long p l c) = Some (h, Long p l c)"
    by (simp add: zstr_shrink_to_fit_def)
  from blk l show "l < c \<Longrightarrow> \<exists>h' blk'. zstr_shrink_to_fit (AllocGives junk) h (Long p l c) = Some (h', Long (brk h) l l)
             \<and> blocks h' (brk h) = Some blk' \<and> length blk' = l + 1
             \<and> zstr_invariant h' (Long (brk h) l l)
             \<and> zstr_content h' (Long (brk h) l l) = zstr_content h (Long p l c)"
    by (simp add: zstr_shrink_to_fit_def Z_STR_REALLOC_def zstr_content_def nth_append min_def)
qed

text \<open>
  C3. The claim is that \<open>shrink_to_fit\<close> demotes exactly when the value is long with
  length at most \<open>C - 1 = 22\<close>, and otherwise reallocates. The test of the code is
  \<open>s->l.len <= ZSTR_SSO_CAP\<close>: a long value of length 23, here the one
  \<open>zstr_from_len\<close> builds from 23 bytes, takes the demotion branch, where
  \<open>temp[s->l.len] = 0\<close> stores behind the 23 bytes of \<open>temp\<close> (and the copy into
  \<open>s->s.buf\<close> is one of 24 bytes): the operation has no defined result.
\<close>

theorem shrink_to_fit_length_23:
  "\<exists>h s. zstr_from_len (AllocGives []) empty_heap (ascii ''abcdefghijklmnopqrstuvw'') 23 = Some (h, s)
        \<and> s = Long 1 23 23 \<and> zstr_invariant h s
        \<and> zstr_shrink_to_fit a h s = None"
  by (simp add: zstr_from_len_def zstr_reserve_def zstr_init_def Z_STR_MALLOC_def
      fresh_bytes_def memcpy_def poke_def Z_OK_def ZSTR_SSO_CAP_def empty_heap_def ascii_def
      zstr_shrink_to_fit_def)

subsection \<open>Growth: inline below 23 bytes, heap-backed from 23 on\<close>

lemma length_fresh_bytes [simp]: "length (fresh_bytes sz junk) = sz"
  by (simp add: fresh_bytes_def)

lemma fresh_bytes_nonempty [simp]: "fresh_bytes (Suc n) junk \<noteq> []"
  using length_fresh_bytes [of "Suc n" junk] by (metis length_0_conv nat.distinct(1))

lemma grow_cap_gt: "req < grow_cap n req"
proof (induction n req rule: grow_cap.induct)
  case (1 new_cap req_cap)
  then show ?case by (subst grow_cap.simps) simp
qed

lemma reserve_short:
  assumes "length b = ZSTR_SSO_CAP" and "l < ZSTR_SSO_CAP" and "ZSTR_SSO_CAP \<le> n"
  shows "zstr_reserve a h (Short b l) n =
     (case a of
        AllocFails \<Rightarrow> Some (Z_ERR, h, Short b l)
      | AllocGives junk \<Rightarrow>
          Some (Z_OK,
                \<lparr>blocks = (blocks h)(brk h \<mapsto> (take l b @ drop l (fresh_bytes (n + 1) junk))[l := 0]),
                 brk = Suc (brk h)\<rparr>,
                Long (brk h) l n))"
  using assms
  by (cases a) (auto simp: zstr_reserve_def Z_STR_MALLOC_def memcpy_def poke_def)

lemma reserve_long:
  assumes "blocks h p = Some blk" and "c < n" and "ZSTR_SSO_CAP \<le> n"
  shows "zstr_reserve a h (Long p l c) n =
     (case a of
        AllocFails \<Rightarrow> Some (Z_ERR, h, Long p l c)
      | AllocGives junk \<Rightarrow>
          Some (Z_OK,
                \<lparr>blocks = ((blocks h)(p := None))(brk h \<mapsto> take (n + 1) (blk @ fresh_bytes (n + 1) junk)),
                 brk = Suc (brk h)\<rparr>,
                Long (brk h) l n))"
  using assms
  by (cases a) (auto simp: zstr_reserve_def Z_STR_REALLOC_def)






text \<open>
  The three operations return on every such value, when the source holds the bytes to
  copy: no store of theirs falls outside the buffer.
\<close>

lemma from_len_returns:
  assumes "len \<le> length src"
  shows "\<exists>h s. zstr_from_len a h0 src len = Some (h, s)"
proof (cases "len < ZSTR_SSO_CAP")
  case True
  with assms show ?thesis
    by (simp add: zstr_from_len_def zstr_init_def memcpy_def poke_def)
next
  case False
  with assms show ?thesis
    by (cases a)
       (simp_all add: zstr_from_len_def zstr_reserve_def Z_STR_MALLOC_def zstr_init_def
          memcpy_def poke_def Z_OK_def Z_ERR_def)
qed

lemma push_char_returns:
  assumes inv: "grown_inv h s"
  shows "\<exists>rc h' s'. zstr_push_char a h s c = Some (rc, h', s')"
proof (cases s)
  case (Short b l)
  with inv have b: "length b = ZSTR_SSO_CAP" "l < ZSTR_SSO_CAP"
    by (auto simp: grown_inv_def)
  have gf: "ZSTR_SSO_CAP \<le> Z_GROWTH_FACTOR ZSTR_SSO_CAP"
    by (simp add: Z_GROWTH_FACTOR_def ZSTR_SSO_CAP_def)
  note r = reserve_short [OF b gf, of a h]
  from b r Short show ?thesis
    by (cases a)
       (auto simp: zstr_push_char_def push_char_store_def poke_def Let_def Z_OK_def Z_ERR_def
          Z_GROWTH_FACTOR_def ZSTR_SSO_CAP_def)
next
  case (Long p l c)
  with inv obtain blk where blk: "blocks h p = Some blk" "c < length blk" "l \<le> c"
      and l23: "ZSTR_SSO_CAP \<le> l"
    by (auto simp: grown_inv_def split: option.splits)
  from l23 blk have gf: "Z_GROWTH_FACTOR c = 2 * c" "c < 2 * c" "ZSTR_SSO_CAP \<le> 2 * c"
    by (auto simp: Z_GROWTH_FACTOR_def ZSTR_SSO_CAP_def)
  note r = reserve_long [OF blk(1) gf(2,3), of a l]
  from blk r Long gf l23 show ?thesis
    by (cases a)
       (auto simp: zstr_push_char_def push_char_store_def poke_def Let_def Z_OK_def Z_ERR_def
          min_def ZSTR_SSO_CAP_def)
qed

lemma cat_len_store_long_returns:
  assumes "blocks h p = Some blk" and "n \<le> length src" and "l + n < length blk"
  shows "\<exists>rc h' s'. cat_len_store h (Long p l c) l src n = Some (rc, h', s')"
  using assms by (simp add: cat_len_store_def memcpy_def poke_def)

lemma cat_len_returns:
  assumes inv: "grown_inv h s" and src: "n \<le> length src"
  shows "\<exists>rc h' s'. zstr_cat_len a h s src n = Some (rc, h', s')"
proof (cases s)
  case (Short b l)
  with inv have b: "length b = ZSTR_SSO_CAP" "l < ZSTR_SSO_CAP"
    by (auto simp: grown_inv_def)
  show ?thesis
  proof (cases "l + n \<ge> ZSTR_SSO_CAP")
    case False
    with b src Short show ?thesis
      by (simp add: zstr_cat_len_def cat_len_store_def memcpy_def poke_def Let_def)
  next
    case True
    define nc where "nc = grow_cap ZSTR_SSO_CAP (l + n)"
    have nc: "l + n < nc" unfolding nc_def by (rule grow_cap_gt)
    with True have gf: "ZSTR_SSO_CAP \<le> nc" by simp
    note r = reserve_short [OF b gf, of a h]
    have c0: "ZSTR_SSO_CAP \<noteq> 0" by (simp add: ZSTR_SSO_CAP_def)
    show ?thesis
    proof (cases a)
      case AllocFails
      with r Short True c0 show ?thesis
        by (simp add: zstr_cat_len_def Let_def Z_ERR_def Z_OK_def nc_def)
    next
      case (AllocGives junk)
      define h1 where "h1 = \<lparr>blocks = (blocks h)(brk h \<mapsto> (take l b @ drop l (fresh_bytes (nc + 1) junk))[l := 0]),
                 brk = Suc (brk h)\<rparr>"
      have "blocks h1 (brk h) = Some ((take l b @ drop l (fresh_bytes (nc + 1) junk))[l := 0])"
        by (simp add: h1_def)
      from cat_len_store_long_returns [OF this src, of l nc] b nc
      have "\<exists>rc h' s'. cat_len_store h1 (Long (brk h) l nc) l src n = Some (rc, h', s')"
        by simp
      with AllocGives r Short True c0 show ?thesis
        by (simp add: zstr_cat_len_def Let_def Z_OK_def nc_def h1_def)
    qed
  qed
next
  case (Long p l c)
  with inv obtain blk where blk: "blocks h p = Some blk" "c < length blk" "l \<le> c"
      and l23: "ZSTR_SSO_CAP \<le> l"
    by (auto simp: grown_inv_def split: option.splits)
  show ?thesis
  proof (cases "l + n \<ge> c")
    case False
    with cat_len_store_long_returns [OF blk(1) src, of l c] blk Long show ?thesis
      by (simp add: zstr_cat_len_def Let_def)
  next
    case True
    from l23 blk have c0: "c \<noteq> 0" by (auto simp: ZSTR_SSO_CAP_def)
    define nc where "nc = grow_cap c (l + n)"
    have nc: "l + n < nc" unfolding nc_def by (rule grow_cap_gt)
    with True l23 blk have gf: "c < nc" "ZSTR_SSO_CAP \<le> nc" by simp_all
    note r = reserve_long [OF blk(1) gf, of a l]
    show ?thesis
    proof (cases a)
      case AllocFails
      with r Long True c0 show ?thesis
        by (simp add: zstr_cat_len_def Let_def Z_ERR_def Z_OK_def nc_def)
    next
      case (AllocGives junk)
      define h1 where "h1 = \<lparr>blocks = ((blocks h)(p := None))(brk h \<mapsto> take (nc + 1) (blk @ fresh_bytes (nc + 1) junk)),
                 brk = Suc (brk h)\<rparr>"
      have "blocks h1 (brk h) = Some (take (nc + 1) (blk @ fresh_bytes (nc + 1) junk))"
        by (simp add: h1_def)
      from cat_len_store_long_returns [OF this src, of l nc] nc
      have "\<exists>rc h' s'. cat_len_store h1 (Long (brk h) l nc) l src n = Some (rc, h', s')"
        by simp
      with AllocGives r Long True c0 show ?thesis
        by (simp add: zstr_cat_len_def Let_def Z_OK_def nc_def h1_def)
    qed
  qed
qed




subsection \<open>replace\<close>

text \<open>
  The string functions on a C string: the content \<open>X\<close> has no NUL and a NUL follows it.
  \<open>strstr\<close> then finds what \<open>find_sub\<close> finds in the rest of the content, the
  counting loop counts the occurrences, and the rewriting loop followed by \<open>strcpy\<close>
  stores the replaced text and its terminator.
\<close>

lemma strlen_at_nul:
  assumes "0 \<notin> set xs"
  shows "strlen (xs @ 0 # rest) = Some (length xs)"
proof -
  from assms have "\<And>x. x \<in> set xs \<Longrightarrow> x \<noteq> 0" by auto
  then have "takeWhile (\<lambda>b. b \<noteq> 0) (xs @ 0 # rest) = xs"
    by simp
  then show ?thesis by (simp add: strlen_def)
qed

lemma take_eq_imp_le: "take (length t) xs = t \<Longrightarrow> length t \<le> length xs"
  by (drule arg_cong [where f = length]) simp

lemma find_sub_None:
  assumes "t \<noteq> []"
  shows "find_sub xs t = None \<Longrightarrow> replace_all xs t r = xs \<and> occurrences xs t = 0"
proof (induction xs)
  case Nil
  with assms show ?case by (simp add: replace_all.simps occurrences.simps)
next
  case (Cons x xs)
  from Cons.prems have ne: "take (length t) (x # xs) \<noteq> t" and rec: "find_sub xs t = None"
    by (auto split: if_splits)
  from Cons.IH [OF rec] ne assms show ?case
    by (subst replace_all.simps, subst occurrences.simps) simp
qed

lemma find_sub_Some:
  assumes "t \<noteq> []"
  shows "find_sub xs t = Some i \<Longrightarrow>
         i + length t \<le> length xs
       \<and> replace_all xs t r = take i xs @ r @ replace_all (drop (i + length t) xs) t r
       \<and> occurrences xs t = Suc (occurrences (drop (i + length t) xs) t)"
proof (induction xs arbitrary: i)
  case Nil
  with assms show ?case by simp
next
  case (Cons x xs)
  show ?case
  proof (cases "take (length t) (x # xs) = t")
    case True
    with Cons.prems have i: "i = 0" by simp
    from True have "length t \<le> length (x # xs)"
      by (rule take_eq_imp_le)
    with True i assms show ?thesis
      by (subst replace_all.simps, subst occurrences.simps) simp
  next
    case False
    with Cons.prems obtain j where j: "find_sub xs t = Some j" "i = Suc j"
      by (auto split: if_splits)
    from Cons.IH [OF j(1)] False j(2) assms show ?thesis
      by (subst replace_all.simps, subst occurrences.simps) simp
  qed
qed

lemma replace_all_length:
  "length (replace_all xs t r) + occurrences xs t * length t = length xs + occurrences xs t * length r"
proof (induction xs t r rule: replace_all.induct)
  case (1 xs t r)
  show ?case
  proof (cases "xs = [] \<or> t = []")
    case True
    then show ?thesis by (subst replace_all.simps, subst (1 2) occurrences.simps) simp
  next
    case False
    show ?thesis
    proof (cases "take (length t) xs = t")
      case True
      then have "length t \<le> length xs" by (rule take_eq_imp_le)
      with "1.IH"(1) [OF False True] False True show ?thesis
        by (subst replace_all.simps, subst (1 2) occurrences.simps) simp
    next
      case ne: False
      from False have "length (tl xs) = length xs - 1" "length xs > 0" by auto
      with "1.IH"(2) [OF False ne] False ne show ?thesis
        by (subst replace_all.simps, subst (1 2) occurrences.simps) simp
    qed
  qed
qed

lemma length_overwrite:
  "off + length bs \<le> length dest \<Longrightarrow> length (overwrite dest off bs) = length dest"
  by (simp add: overwrite_def)

lemma overwrite_append:
  assumes "off + length xs + length ys \<le> length dest"
  shows "overwrite (overwrite dest off xs) (off + length xs) ys = overwrite dest off (xs @ ys)"
  using assms by (simp add: overwrite_def ac_simps)

lemma memcpy_overwrite:
  assumes "n \<le> length src" and "off + n \<le> length dest"
  shows "memcpy dest off src n = Some (overwrite dest off (take n src))"
  using assms by (simp add: memcpy_def overwrite_def)

lemma c_strstr_c_string:
  assumes "0 \<notin> set X" and "0 \<notin> set tg" and "k \<le> length X"
  shows "c_strstr (X @ 0 # rest) k (tg @ 0 # trest)
           = Some (map_option (\<lambda>i. k + i) (find_sub (drop k X) tg))"
proof -
  from assms(1) have "0 \<notin> set (drop k X)" by (auto dest: in_set_dropD)
  then have "strlen (drop k X @ 0 # rest) = Some (length (drop k X))" by (rule strlen_at_nul)
  with assms(3) have "strlen (drop k (X @ 0 # rest)) = Some (length X - k)" by simp
  moreover from assms(2) have "strlen (tg @ 0 # trest) = Some (length tg)" by (rule strlen_at_nul)
  ultimately show ?thesis using assms(3) by (simp add: c_strstr_def)
qed

lemma count_matches_c_string:
  assumes "0 \<notin> set X" and "0 \<notin> set tg" and "tg \<noteq> []" and "k \<le> length X"
  shows "count_matches (X @ 0 # rest) (tg @ 0 # trest) (length tg) k cnt
           = Some (cnt + occurrences (drop k X) tg)"
  using assms(4)
proof (induction "length X - k" arbitrary: k cnt rule: less_induct)
  case less
  note ss = c_strstr_c_string [OF assms(1,2) less.prems, of rest trest]
  show ?case
  proof (cases "find_sub (drop k X) tg")
    case None
    with ss find_sub_None [OF assms(3) None] show ?thesis
      by (subst count_matches.simps) simp
  next
    case (Some i)
    note f = find_sub_Some [OF assms(3) Some, of "[]"]
    from f [THEN conjunct1] less.prems have le: "k + i + length tg \<le> length X" by simp
    with assms(3) have "length X - (k + i + length tg) < length X - k" by (cases tg) auto
    from less.hyps [OF this le, of "Suc cnt"] ss Some f show ?thesis
      by (subst count_matches.simps) (simp add: add.commute add.left_commute)
  qed
qed

lemma copy_matches_then_strcpy:
  assumes "0 \<notin> set X" and "0 \<notin> set tg" and "tg \<noteq> []" and "k \<le> length X"
      and "d + length (replace_all (drop k X) tg rp) + 1 \<le> length dest"
  shows "\<exists>k' d' dest'.
           copy_matches (X @ 0 # rest) (tg @ 0 # trest) (length tg) (rp @ 0 # rrest) (length rp)
             k d dest = Some (k', d', dest')
         \<and> strcpy dest' d' (X @ 0 # rest) k'
             = Some (overwrite dest d (replace_all (drop k X) tg rp @ [0]))"
  using assms(4,5)
proof (induction "length X - k" arbitrary: k d dest rule: less_induct)
  case less
  note ss = c_strstr_c_string [OF assms(1,2) less.prems(1), of rest trest]
  show ?case
  proof (cases "find_sub (drop k X) tg")
    case None
    note f = find_sub_None [OF assms(3) None, of rp]
    from assms(1) have "0 \<notin> set (drop k X)" by (auto dest: in_set_dropD)
    then have "strlen (drop k X @ 0 # rest) = Some (length (drop k X))" by (rule strlen_at_nul)
    with less.prems(1) have sl: "strlen (drop k (X @ 0 # rest)) = Some (length X - k)" by simp
    from less.prems f
    have "memcpy dest d (drop k (X @ 0 # rest)) (length X - k + 1)
            = Some (overwrite dest d (take (length X - k + 1) (drop k (X @ 0 # rest))))"
      by (intro memcpy_overwrite) simp_all
    moreover from less.prems(1)
    have "take (length X - k + 1) (drop k (X @ 0 # rest)) = drop k X @ [0]" by simp
    ultimately have "strcpy dest d (X @ 0 # rest) k = Some (overwrite dest d (drop k X @ [0]))"
      using sl by (simp add: strcpy_def)
    with ss None f show ?thesis
      by (subst copy_matches.simps) simp
  next
    case (Some i)
    note f = find_sub_Some [OF assms(3) Some, of rp]
    define R' where "R' = replace_all (drop (k + i + length tg) X) tg rp"
    from f have R: "replace_all (drop k X) tg rp = take i (drop k X) @ rp @ R'"
      by (simp add: R'_def add.commute add.left_commute)
    from f [THEN conjunct1] less.prems(1) have le: "k + i + length tg \<le> length X" by simp
    then have ile: "i \<le> length X - k" by simp
    with assms(3) le have m: "length X - (k + i + length tg) < length X - k" by (cases tg) auto
    from ile less.prems(1) have seg: "take i (drop k (X @ 0 # rest)) = take i (drop k X)" by simp
    from ile have li: "length (take i (drop k X)) = i" by simp
    from less.prems(2) R li
    have bound: "d + i + length rp + length R' + 1 \<le> length dest" by simp
    have c1: "memcpy dest d (drop k (X @ 0 # rest)) i = Some (overwrite dest d (take i (drop k X)))"
      using memcpy_overwrite [of i "drop k (X @ 0 # rest)" d dest] ile less.prems(1) bound seg
      by simp
    define d1 where "d1 = overwrite dest d (take i (drop k X))"
    have l1: "length d1 = length dest" unfolding d1_def using bound li by (simp add: length_overwrite)
    have c2: "memcpy d1 (d + i) (rp @ 0 # rrest) (length rp) = Some (overwrite d1 (d + i) rp)"
      using memcpy_overwrite [of "length rp" "rp @ 0 # rrest" "d + i" d1] bound l1 by simp
    have ow: "overwrite d1 (d + i) rp = overwrite dest d (take i (drop k X) @ rp)"
      unfolding d1_def using overwrite_append [of d "take i (drop k X)" rp dest] bound li by simp
    define d2 where "d2 = overwrite dest d (take i (drop k X) @ rp)"
    have l2: "length d2 = length dest" unfolding d2_def using bound li by (simp add: length_overwrite)
    from bound l2 have b2: "(d + i + length rp) + length (replace_all (drop (k + i + length tg) X) tg rp) + 1 \<le> length d2"
      by (simp add: R'_def)
    from less.hyps [OF m le b2]
    obtain k' d' dest' where rec:
      "copy_matches (X @ 0 # rest) (tg @ 0 # trest) (length tg) (rp @ 0 # rrest) (length rp)
         (k + i + length tg) (d + i + length rp) d2 = Some (k', d', dest')"
      "strcpy dest' d' (X @ 0 # rest) k' = Some (overwrite d2 (d + i + length rp) (R' @ [0]))"
      by (auto simp: R'_def)
    have "overwrite d2 (d + i + length rp) (R' @ [0]) = overwrite dest d ((take i (drop k X) @ rp) @ (R' @ [0]))"
      unfolding d2_def
      using overwrite_append [of d "take i (drop k X) @ rp" "R' @ [0]" dest] bound li
      by (simp add: add.assoc)
    then have fin: "overwrite d2 (d + i + length rp) (R' @ [0]) = overwrite dest d (replace_all (drop k X) tg rp @ [0])"
      using R by simp
    have "copy_matches (X @ 0 # rest) (tg @ 0 # trest) (length tg) (rp @ 0 # rrest) (length rp) k d dest
            = Some (k', d', dest')"
      using ss Some c1 c2 ow rec(1)
      by (subst copy_matches.simps) (simp add: d1_def d2_def)
    with rec(2) fin show ?thesis by simp
  qed
qed

lemma wrapped_length_exact:
  fixes M :: nat
  assumes eq: "R + occ * tlen = old + occ * rlen" and "tlen < M" and "R < M"
  shows "(old + occ * ((rlen + M - tlen) mod M)) mod M = R"
proof -
  have "(old + occ * ((rlen + M - tlen) mod M)) mod M = (old + occ * (rlen + M - tlen)) mod M"
    by (metis mod_add_right_eq mod_mult_right_eq)
  also from assms(2) have "occ * (rlen + M - tlen) = occ * rlen + occ * M - occ * tlen"
    by (simp add: diff_mult_distrib2 add_mult_distrib2)
  also have "old + (occ * rlen + occ * M - occ * tlen) = R + occ * M"
  proof -
    from assms(2) have "occ * tlen \<le> occ * M" by simp
    with eq show ?thesis by linarith
  qed
  also have "(R + occ * M) mod M = R" using assms(3) by simp
  finally show ?thesis .
qed

lemma replace_new_len_exact:
  assumes "R + occ * tlen = old + occ * rlen" and "tlen < 2 ^ 64" and "R < 2 ^ 64"
  shows "replace_new_len old occ rlen tlen = R"
  unfolding replace_new_len_def using assms by (rule wrapped_length_exact)

lemma overwrite_whole:
  assumes "length bs \<le> length dest"
  shows "take (length bs) (overwrite dest 0 bs) = bs"
    and "length (overwrite dest 0 bs) = length dest"
  using assms by (simp_all add: overwrite_def)

lemma zstr_data_shape:
  assumes "zstr_invariant h s" and "zstr_content h s = Some X"
  shows "\<exists>rest. zstr_data h s = Some (X @ 0 # rest) \<and> length X = zstr_len s"
proof -
  from assms obtain d where d: "zstr_data h s = Some d" "zstr_len s < length d"
      "d ! zstr_len s = 0" "X = take (zstr_len s) d"
    by (cases s) (auto simp: zstr_content_def ZSTR_SSO_CAP_def split: option.splits)
  from d(2) have "d = take (zstr_len s) d @ d ! zstr_len s # drop (Suc (zstr_len s)) d"
    by (rule id_take_nth_drop)
  with d show ?thesis by auto
qed

lemma zstr_free_valid:
  assumes "zstr_invariant h s"
  shows "\<exists>h'. zstr_free h s = Some (h', zstr_init)
           \<and> (\<forall>q. (zstr_is_long s \<and> q = lptr s) \<or> blocks h' q = blocks h q)"
  using assms
  by (cases s) (auto simp: zstr_free_def Z_STR_FREE_def split: option.splits)

lemma zstr_replace_rejects:
  "zstr_replace a h s None replacement = Some (Z_ERR, h, s)"
  "zstr_replace a h s (Some (0 # trest)) replacement = Some (Z_ERR, h, s)"
  by (simp_all add: zstr_replace_def peek_def)

lemma zstr_replace_run:
  assumes inv: "zstr_invariant h s" and X: "zstr_content h s = Some X" and X0: "0 \<notin> set X"
      and hp: "blocks h (brk h) = None"
      and tg: "0 \<notin> set tg" "tg \<noteq> []" and rp: "0 \<notin> set rp"
      and sz: "length tg < 2 ^ 64" "length (replace_all X tg rp) < 2 ^ 64"
  shows "if occurrences X tg = 0 then
           zstr_replace a h s (Some (tg @ 0 # trest)) (rp @ 0 # rrest) = Some (Z_OK, h, s)
         else if a = AllocFails \<and> ZSTR_SSO_CAP \<le> length (replace_all X tg rp) then
           zstr_replace a h s (Some (tg @ 0 # trest)) (rp @ 0 # rrest) = Some (Z_ERR, h, s)
         else
           (\<exists>h' s'. zstr_replace a h s (Some (tg @ 0 # trest)) (rp @ 0 # rrest) = Some (Z_OK, h', s')
               \<and> zstr_invariant h' s'
               \<and> zstr_content h' s' = Some (replace_all X tg rp)
               \<and> zstr_len s' = length (replace_all X tg rp))"
proof -
  define R where "R = replace_all X tg rp"
  define t where "t = tg @ 0 # trest"
  define r where "r = rp @ 0 # rrest"
  from zstr_data_shape [OF inv X] obtain rest where
    src: "zstr_data h s = Some (X @ 0 # rest)" and len: "length X = zstr_len s" by blast
  from tg have t0: "peek t 0 = Some (hd tg)" "hd tg \<noteq> 0"
    by (cases tg; auto simp: peek_def t_def)+
  have ss: "c_strstr (X @ 0 # rest) 0 t = Some (find_sub X tg)"
    using c_strstr_c_string [OF X0 tg(1), of 0 rest trest]
    by (simp add: t_def option.map_ident)
  show ?thesis
  proof (cases "find_sub X tg")
    case None
    from find_sub_None [OF tg(2) None, of rp] have "occurrences X tg = 0" by simp
    moreover from None ss src t0
    have "zstr_replace a h s (Some t) r = Some (Z_OK, h, s)"
      by (simp add: zstr_replace_def)
    ultimately show ?thesis by (simp add: t_def r_def)
  next
    case (Some i)
    from find_sub_Some [OF tg(2) Some, of rp] have occ: "occurrences X tg \<noteq> 0" by simp
    have sl: "strlen t = Some (length tg)" "strlen r = Some (length rp)"
      using strlen_at_nul [OF tg(1)] strlen_at_nul [OF rp] by (simp_all add: t_def r_def)
    have cnt: "count_matches (X @ 0 # rest) t (length tg) 0 0 = Some (occurrences X tg)"
      using count_matches_c_string [OF X0 tg, of 0 rest trest 0] by (simp add: t_def)
    have nl: "replace_new_len (zstr_len s) (occurrences X tg) (length rp) (length tg) = length R"
      using replace_all_length [of X tg rp] sz len
      by (intro replace_new_len_exact) (simp_all add: R_def)
    have head: "zstr_replace a h s (Some t) r =
        do {
          (rc, h1, res) \<leftarrow> zstr_reserve a h zstr_init (length R);
          if rc \<noteq> Z_OK then Some (Z_ERR, h1, s)
          else do {
            dest \<leftarrow> zstr_data h1 res;
            (curr_src, curr_dest, dest1) \<leftarrow>
              copy_matches (X @ 0 # rest) t (length tg) r (length rp) 0 0 dest;
            dest2 \<leftarrow> strcpy dest1 curr_dest (X @ 0 # rest) curr_src;
            (case set_data h1 res dest2 of
               (h2, res1) \<Rightarrow>
                 do {
                   (h3, s0) \<leftarrow> zstr_free h2 s;
                   Some (Z_OK, h3, set_len res1 (length R))
                 })
          }
        }"
      using Some ss src t0 sl cnt unfolding nl [symmetric] by (simp add: zstr_replace_def)
    have copy: "\<And>dest. length R + 1 \<le> length dest \<Longrightarrow>
        \<exists>k' d' dest'. copy_matches (X @ 0 # rest) t (length tg) r (length rp) 0 0 dest
                          = Some (k', d', dest')
                      \<and> strcpy dest' d' (X @ 0 # rest) k' = Some (overwrite dest 0 (R @ [0]))"
      using copy_matches_then_strcpy [OF X0 tg, of 0 0 rp _ rest trest rrest]
      by (simp add: t_def r_def R_def)
    show ?thesis
    proof (cases "length R < ZSTR_SSO_CAP")
      case True
      define dest2 where "dest2 = overwrite (replicate ZSTR_SSO_CAP 0) 0 (R @ [0])"
      from True have res: "zstr_reserve a h zstr_init (length R) = Some (Z_OK, h, zstr_init)"
        by (simp add: zstr_reserve_def)
      from True copy [of "replicate ZSTR_SSO_CAP 0"] obtain k' d' dest' where
        c: "copy_matches (X @ 0 # rest) t (length tg) r (length rp) 0 0 (replicate ZSTR_SSO_CAP 0)
              = Some (k', d', dest')"
           "strcpy dest' d' (X @ 0 # rest) k' = Some dest2"
        by (auto simp: dest2_def)
      from zstr_free_valid [OF inv] obtain h3 where
        fr: "zstr_free h s = Some (h3, zstr_init)" by blast
      from True have m: "length R mod 256 = length R" by (simp add: ZSTR_SSO_CAP_def)
      have run: "zstr_replace a h s (Some t) r = Some (Z_OK, h3, Short dest2 (length R))"
        using head res c fr m by (simp add: zstr_init_def)
      from True have fit: "length (R @ [0]) \<le> length (replicate ZSTR_SSO_CAP (0 :: byte))" by simp
      from overwrite_whole [OF fit]
      have d2: "take (length R + 1) dest2 = R @ [0]" "length dest2 = ZSTR_SSO_CAP"
        by (simp_all add: dest2_def)
      from d2(1) have "take (length R) (take (length R + 1) dest2) = R" by simp
      then have cont: "take (length R) dest2 = R" by (simp add: min_def)
      from d2(1) have "take (length R + 1) dest2 ! length R = (R @ [0]) ! length R" by simp
      then have nul: "dest2 ! length R = 0" by simp
      from True d2(2) cont nul
      have "zstr_invariant h3 (Short dest2 (length R))"
        "zstr_content h3 (Short dest2 (length R)) = Some R"
        by (simp_all add: zstr_content_def)
      with run occ show ?thesis by (simp add: t_def r_def R_def)
    next
      case False
      then have big: "ZSTR_SSO_CAP \<le> length R" by simp
      have ini: "length (replicate ZSTR_SSO_CAP (0 :: byte)) = ZSTR_SSO_CAP" "0 < ZSTR_SSO_CAP"
        by (simp_all add: ZSTR_SSO_CAP_def)
      note rs = reserve_short [OF ini big, of a h]
      show ?thesis
      proof (cases a)
        case AllocFails
        with rs head have "zstr_replace a h s (Some t) r = Some (Z_ERR, h, s)"
          by (simp add: zstr_init_def Z_ERR_def Z_OK_def)
        with AllocFails big occ show ?thesis by (simp add: t_def r_def R_def)
      next
        case (AllocGives junk)
        define dest where "dest = (drop 0 (fresh_bytes (length R + 1) junk))[0 := 0]"
        define h1 where "h1 = \<lparr>blocks = (blocks h)(brk h \<mapsto> dest), brk = Suc (brk h)\<rparr>"
        define dest2 where "dest2 = overwrite dest 0 (R @ [0])"
        define h2 where "h2 = h1\<lparr>blocks := (blocks h1)(brk h \<mapsto> dest2)\<rparr>"
        have ld: "length dest = length R + 1" by (simp add: dest_def)
        from rs AllocGives
        have res: "zstr_reserve a h zstr_init (length R) = Some (Z_OK, h1, Long (brk h) 0 (length R))"
          by (simp add: zstr_init_def h1_def dest_def)
        from copy [of dest] ld obtain k' d' dest' where
          c: "copy_matches (X @ 0 # rest) t (length tg) r (length rp) 0 0 dest = Some (k', d', dest')"
             "strcpy dest' d' (X @ 0 # rest) k' = Some dest2"
          by (auto simp: dest2_def)
        have inv2: "zstr_invariant h2 s"
        proof (cases s)
          case (Short b l)
          with inv show ?thesis by simp
        next
          case (Long p l c)
          with inv hp have "p \<noteq> brk h" by (auto split: option.splits)
          with inv Long show ?thesis by (simp add: h2_def h1_def)
        qed
        from zstr_free_valid [OF inv2] obtain h3 where
          fr: "zstr_free h2 s = Some (h3, zstr_init)"
              "\<forall>q. (zstr_is_long s \<and> q = lptr s) \<or> blocks h3 q = blocks h2 q" by blast
        have run: "zstr_replace a h s (Some t) r = Some (Z_OK, h3, Long (brk h) (length R) (length R))"
          using head res c fr(1) by (simp add: h1_def h2_def Z_OK_def)
        have notp: "\<not> (zstr_is_long s \<and> brk h = lptr s)"
        proof (cases s)
          case (Short b l)
          then show ?thesis by simp
        next
          case (Long p l c)
          with inv hp show ?thesis by (auto split: option.splits)
        qed
        with fr(2) have blk: "blocks h3 (brk h) = Some dest2"
          by (auto simp: h2_def h1_def)
        from ld have fit: "length (R @ [0]) \<le> length dest" by simp
        from overwrite_whole [OF fit]
        have d2: "take (length R + 1) dest2 = R @ [0]" "length dest2 = length R + 1"
          by (simp_all add: dest2_def ld)
        from d2(1) have "take (length R) (take (length R + 1) dest2) = R" by simp
        then have cont: "take (length R) dest2 = R" by (simp add: min_def)
        from d2(1) have "take (length R + 1) dest2 ! length R = (R @ [0]) ! length R" by simp
        then have nul: "dest2 ! length R = 0" by simp
        from blk d2(2) cont nul
        have "zstr_invariant h3 (Long (brk h) (length R) (length R))"
          "zstr_content h3 (Long (brk h) (length R) (length R)) = Some R"
          by (simp_all add: zstr_content_def)
        with run occ AllocGives show ?thesis by (simp add: t_def r_def R_def)
      qed
    qed
  qed
qed

text \<open>
  On a value that satisfies the invariant and whose content \<open>X\<close> has no NUL byte (in a
  heap whose next address is not live, with sizes that are \<open>size_t\<close> values),
  \<open>zstr_replace\<close> replaces all occurrences: an empty target is rejected with
  \<open>Z_ERR\<close> and the value is not modified; for a non-empty target, when there is no
  occurrence the value is returned as it is; when the result needs a heap buffer and the
  allocation fails, \<open>Z_ERR\<close> is returned and the heap and the value are unchanged;
  otherwise \<open>Z_OK\<close> is returned with a value that satisfies the invariant, whose
  content is \<open>X\<close> with every non-overlapping occurrence of the target, from the left,
  replaced, and whose length is the old length plus occurrences times (replacement
  length minus target length).
\<close>

theorem zstr_replace_c_string:
  assumes inv: "zstr_invariant h s" and X: "zstr_content h s = Some X" and X0: "0 \<notin> set X"
      and hp: "blocks h (brk h) = None"
      and tg: "0 \<notin> set tg" "tg \<noteq> []" and rp: "0 \<notin> set rp"
      and sz: "length tg < 2 ^ 64" "length (replace_all X tg rp) < 2 ^ 64"
  shows "zstr_replace a h s (Some (c_str [])) (c_str rp) = Some (Z_ERR, h, s)
       \<and> (if occurrences X tg = 0 then
            zstr_replace a h s (Some (c_str tg)) (c_str rp) = Some (Z_OK, h, s)
            \<and> replace_all X tg rp = X
          else if a = AllocFails \<and> ZSTR_SSO_CAP \<le> length (replace_all X tg rp) then
            zstr_replace a h s (Some (c_str tg)) (c_str rp) = Some (Z_ERR, h, s)
          else
            (\<exists>h' s'. zstr_replace a h s (Some (c_str tg)) (c_str rp) = Some (Z_OK, h', s')
               \<and> zstr_invariant h' s'
               \<and> zstr_content h' s' = Some (replace_all X tg rp)
               \<and> int (zstr_len s') = int (zstr_len s)
                    + int (occurrences X tg) * (int (length rp) - int (length tg))))"
proof -
  from zstr_data_shape [OF inv X] have len: "length X = zstr_len s" by blast
  have "int (length (replace_all X tg rp)) + int (occurrences X tg) * int (length tg)
          = int (length X) + int (occurrences X tg) * int (length rp)"
    using replace_all_length [of X tg rp] by (metis of_nat_add of_nat_mult)
  then have formula: "int (length (replace_all X tg rp))
          = int (zstr_len s) + int (occurrences X tg) * (int (length rp) - int (length tg))"
    by (simp add: len algebra_simps)
  have same: "occurrences X tg = 0 \<Longrightarrow> replace_all X tg rp = X"
  proof (cases "find_sub X tg")
    case None
    with find_sub_None [OF tg(2)] show ?thesis by simp
  next
    case (Some i)
    assume "occurrences X tg = 0"
    with find_sub_Some [OF tg(2) Some, of rp] show ?thesis by simp
  qed
  from zstr_replace_run [OF inv X X0 hp tg rp sz, of a "[]" "[]"] formula same
  show ?thesis
    by (auto simp: c_str_def zstr_replace_rejects split: if_splits)
qed

lemma replace_all_the_cat_sat:
  "replace_all (ascii ''the cat sat'') (ascii ''at'') (ascii ''og'') = ascii ''the cog sog''"
  "occurrences (ascii ''the cat sat'') (ascii ''at'') = 2"
  by (simp_all add: replace_all.simps occurrences.simps ascii_def)

theorem zstr_replace_c_string_witness:
  "zstr_from AllocFails empty_heap (c_str (ascii ''the cat sat''))
     = Some (empty_heap, Short (ascii ''the cat sat'' @ replicate 12 0) 11)
 \<and> (\<exists>h' s'. zstr_replace AllocFails empty_heap (Short (ascii ''the cat sat'' @ replicate 12 0) 11)
               (Some (c_str (ascii ''at''))) (c_str (ascii ''og'')) = Some (Z_OK, h', s')
            \<and> zstr_invariant h' s'
            \<and> zstr_content h' s' = Some (ascii ''the cog sog'')
            \<and> int (zstr_len s') = 11 + 2 * (2 - 2))"
proof -
  have mk: "zstr_from AllocFails empty_heap (c_str (ascii ''the cat sat''))
     = Some (empty_heap, Short (ascii ''the cat sat'' @ replicate 12 0) 11)"
    by (simp add: zstr_from_def zstr_from_len_def strlen_def c_str_def ascii_def ZSTR_SSO_CAP_def
        zstr_init_def memcpy_def poke_def replicate_numeral)
  have inv: "zstr_invariant empty_heap (Short (ascii ''the cat sat'' @ replicate 12 0) 11)"
    by (simp add: ZSTR_SSO_CAP_def ascii_def)
  have X: "zstr_content empty_heap (Short (ascii ''the cat sat'' @ replicate 12 0) 11)
             = Some (ascii ''the cat sat'')"
    by (simp add: zstr_content_def ascii_def)
  have X0: "0 \<notin> set (ascii ''the cat sat'')" and tg: "0 \<notin> set (ascii ''at'')" "ascii ''at'' \<noteq> []"
      and rp: "0 \<notin> set (ascii ''og'')"
    by (simp_all add: ascii_def)
  have hp: "blocks empty_heap (brk empty_heap) = None" by (simp add: empty_heap_def)
  have sz: "length (ascii ''at'') < 2 ^ 64"
      "length (replace_all (ascii ''the cat sat'') (ascii ''at'') (ascii ''og'')) < 2 ^ 64"
    by (simp_all add: replace_all_the_cat_sat) (simp_all add: ascii_def)
  from zstr_replace_c_string [OF inv X X0 hp tg rp sz, of AllocFails] mk show ?thesis
    by (simp add: replace_all_the_cat_sat ZSTR_SSO_CAP_def)
       (simp add: ascii_def replace_all.simps)
qed

text \<open>The same example, computed by the code itself.\<close>

lemma zstr_replace_the_cat_sat:
  "zstr_replace a empty_heap (Short (ascii ''the cat sat'' @ replicate 12 0) 11)
      (Some (c_str (ascii ''at''))) (c_str (ascii ''og''))
    = Some (Z_OK, empty_heap, Short (ascii ''the cog sog'' @ replicate 12 0) 11)"
  by (simp add: zstr_replace_def zstr_reserve_def zstr_init_def zstr_free_def c_strstr_def
      strlen_def count_matches.simps copy_matches.simps strcpy_def replace_new_len_def
      memcpy_def poke_def peek_def c_str_def ZSTR_SSO_CAP_def Z_OK_def replicate_numeral
      empty_heap_def ascii_def)

text \<open>
  C4. The claim is that \<open>replace\<close> with a non-empty target replaces every
  non-overlapping occurrence of the target, and the comment of \<open>zstr_replace\<close> says
  "Replaces all occurrences". The code takes the new length from the stored length of
  the value but searches with \<open>strstr\<close> and copies the tail with \<open>strcpy\<close>,
  which stop at the first NUL. On the value of the three bytes \<open>a\<close>, NUL, \<open>a\<close>
  (built by \<open>zstr_from_len\<close>), where the target \<open>a\<close> occurs twice, replacing
  \<open>a\<close> by \<open>b\<close> returns \<open>Z_OK\<close> with the stored length 3 and the content
  \<open>b\<close>, NUL, NUL: the second occurrence is not replaced and the byte is lost.
\<close>

theorem zstr_replace_stops_at_nul:
  "zstr_from_len AllocFails empty_heap [97, 0, 97] 3
     = Some (empty_heap, Short ([97, 0, 97] @ replicate 20 0) 3)
 \<and> zstr_replace AllocFails empty_heap (Short ([97, 0, 97] @ replicate 20 0) 3)
       (Some (c_str [97])) (c_str [98])
     = Some (Z_OK, empty_heap, Short ([98, 0, 0] @ replicate 20 0) 3)
 \<and> zstr_content empty_heap (Short ([98, 0, 0] @ replicate 20 0) 3) = Some [98, 0, 0]
 \<and> occurrences [97, 0, 97] [97] = 2
 \<and> replace_all [97, 0, 97] [97] [98] = [98, 0, 98]"
  by (simp add: zstr_from_len_def zstr_replace_def zstr_reserve_def zstr_init_def zstr_free_def
      c_strstr_def strlen_def count_matches.simps copy_matches.simps strcpy_def
      replace_new_len_def memcpy_def poke_def peek_def c_str_def ZSTR_SSO_CAP_def Z_OK_def
      zstr_content_def replace_all.simps occurrences.simps replicate_numeral empty_heap_def)

subsection \<open>The invariant of the data model\<close>

text \<open>
  C1. The claim is that every value the public operations reach has its terminator
  behind the content and, when inline, a length below \<open>C = 23\<close>. Two operations test
  against \<open>ZSTR_SSO_CAP\<close> with \<open><=\<close> where the inline form needs \<open><\<close>:
  \<open>zstr_shrink_to_fit\<close> on a long value of length 23 (here 22 bytes from
  \<open>zstr_from_len\<close> and one \<open>zstr_push_char\<close>, which promotes) and \<open>zstr_own\<close> with
  \<open>len = cap = 23\<close> both go to the inline form and store the terminator at index 23
  of a 23-byte array, \<open>temp\<close> or \<open>s.buf\<close>: neither has a defined result, and the
  length they then assign to the inline form is 23. Besides, \<open>zstr_replace\<close> on a
  heap value with a NUL byte in its content takes the new length from the stored length
  and copies only up to the NUL: the byte behind the new content is whatever \<open>malloc\<close>
  left there (here \<open>0xAA\<close>), and the result does not satisfy the invariant.
\<close>

theorem inline_length_23_out_of_bounds:
  "(\<exists>h s h' s'.
       zstr_from_len a empty_heap (ascii ''abcdefghijklmnopqrstuv'') 22 = Some (h, s)
     \<and> zstr_invariant h s
     \<and> zstr_push_char (AllocGives []) h s 119 = Some (Z_OK, h', s')
     \<and> s' = Long 1 23 46 \<and> zstr_invariant h' s'
     \<and> zstr_shrink_to_fit a' h' s' = None)
 \<and> zstr_own \<lparr>blocks = [1 \<mapsto> c_str (ascii ''abcdefghijklmnopqrstuvw'')], brk = 2\<rparr> 1 23 23 = None
 \<and> (\<exists>h s h' s'.
       zstr_from_len (AllocGives []) empty_heap
         [97, 0, 120, 120, 120, 120, 120, 120, 120, 120, 120, 120, 120, 120, 120, 120, 120,
          120, 120, 120, 120, 120, 120, 120] 24 = Some (h, s)
     \<and> zstr_invariant h s
     \<and> zstr_replace (AllocGives (replicate 25 170)) h s (Some (c_str [97])) (c_str [98])
          = Some (Z_OK, h', s')
     \<and> s' = Long 2 24 24 \<and> blocks h' 2 = Some ([98, 0] @ replicate 23 170)
     \<and> \<not> zstr_invariant h' s')"
proof (intro conjI)
  show "\<exists>h s h' s'.
       zstr_from_len a empty_heap (ascii ''abcdefghijklmnopqrstuv'') 22 = Some (h, s)
     \<and> zstr_invariant h s
     \<and> zstr_push_char (AllocGives []) h s 119 = Some (Z_OK, h', s')
     \<and> s' = Long 1 23 46 \<and> zstr_invariant h' s'
     \<and> zstr_shrink_to_fit a' h' s' = None"
    by (simp add: zstr_from_len_def zstr_reserve_def zstr_init_def Z_STR_MALLOC_def
        fresh_bytes_def memcpy_def poke_def Z_OK_def ZSTR_SSO_CAP_def empty_heap_def ascii_def
        zstr_shrink_to_fit_def zstr_push_char_def push_char_store_def Z_GROWTH_FACTOR_def)
  show "zstr_own \<lparr>blocks = [1 \<mapsto> c_str (ascii ''abcdefghijklmnopqrstuvw'')], brk = 2\<rparr> 1 23 23
          = None"
    by (simp add: zstr_own_def zstr_init_def memcpy_def poke_def ZSTR_SSO_CAP_def ascii_def
        c_str_def)
  show "\<exists>h s h' s'.
       zstr_from_len (AllocGives []) empty_heap
         [97, 0, 120, 120, 120, 120, 120, 120, 120, 120, 120, 120, 120, 120, 120, 120, 120,
          120, 120, 120, 120, 120, 120, 120] 24 = Some (h, s)
     \<and> zstr_invariant h s
     \<and> zstr_replace (AllocGives (replicate 25 170)) h s (Some (c_str [97])) (c_str [98])
          = Some (Z_OK, h', s')
     \<and> s' = Long 2 24 24 \<and> blocks h' 2 = Some ([98, 0] @ replicate 23 170)
     \<and> \<not> zstr_invariant h' s'"
    by (simp add: zstr_from_len_def zstr_replace_def zstr_reserve_def zstr_init_def
        zstr_free_def c_strstr_def strlen_def count_matches.simps copy_matches.simps strcpy_def
        replace_new_len_def memcpy_def poke_def peek_def c_str_def ZSTR_SSO_CAP_def Z_OK_def
        replicate_numeral empty_heap_def Z_STR_MALLOC_def Z_STR_FREE_def fresh_bytes_def)
qed

end
